theory Spec2Isabelle
  imports
    Main
    "HOL-Library.Char_ord"
    "HOL-Library.List_Lexorder"
    "HOL-Library.Product_Lexorder"
    "HOL-Library.Multiset"
begin

section \<open>Records\<close>

text \<open>
  An entry is the dictionary built by \<^verbatim>\<open>parse_atom\<close> (lines 128-138) and read back
  from \<^verbatim>\<open>papers.json\<close>. The three keys the merge reads, \<^verbatim>\<open>id\<close>,
  \<^verbatim>\<open>date\<close> and \<^verbatim>\<open>fetched_at\<close>, are optional strings: \<open>None\<close> stands for a
  missing key (for \<^verbatim>\<open>id\<close> also for Python's \<^verbatim>\<open>None\<close>, which \<^verbatim>\<open>parse_atom\<close>
  stores when the feed entry has no identifier). Strings are byte lists in UTF-8, whose
  lexicographic order is the order of the code points Python compares.
  Values of other types (a number or \<^verbatim>\<open>null\<close> under \<^verbatim>\<open>fetched_at\<close> in a hand-edited
  store) are outside this type.
\<close>

record entry =
  id_field :: "string option"
  title :: string
  date :: "string option"
  tags :: "string list"
  authors :: "string list"
  institution :: string
  link :: "string option"
  abstract :: string
  fetched_at :: "string option"

definition KEEP_MAX :: nat where
  "KEEP_MAX = 600"

text \<open>\<^verbatim>\<open>e.get('id')\<close> used as a condition: false for a missing key, \<^verbatim>\<open>None\<close> and \<^verbatim>\<open>''\<close>.\<close>

definition truthy_id :: "entry \<Rightarrow> bool" where
  "truthy_id e = (case id_field e of None \<Rightarrow> False | Some i \<Rightarrow> i \<noteq> [])"

text \<open>\<^verbatim>\<open>x.get('date', '')\<close> and \<^verbatim>\<open>x.get('fetched_at', '')\<close>.\<close>

definition get_date :: "entry \<Rightarrow> string" where
  "get_date x = (case date x of None \<Rightarrow> [] | Some d \<Rightarrow> d)"

definition get_fetched_at :: "entry \<Rightarrow> string" where
  "get_fetched_at x = (case fetched_at x of None \<Rightarrow> [] | Some t \<Rightarrow> t)"

section \<open>Dictionaries\<close>

text \<open>
  A Python \<^verbatim>\<open>dict\<close> keeps its keys in insertion order, and \<^verbatim>\<open>list(d.values())\<close>
  follows that order, which the stable sort of the merge then makes visible. A dictionary
  is therefore an association list with distinct keys: \<^verbatim>\<open>d[k] = v\<close> overwrites the value
  in place when \<open>k\<close> is present and appends the pair otherwise.
\<close>

fun dict_set :: "'k \<Rightarrow> 'v \<Rightarrow> ('k \<times> 'v) list \<Rightarrow> ('k \<times> 'v) list" where
  "dict_set k v [] = [(k, v)]"
| "dict_set k v ((k', v') # kvs) =
     (if k' = k then (k, v) # kvs else (k', v') # dict_set k v kvs)"

section \<open>The store merger\<close>

datatype exn = TypeError | OSError | UnicodeDecodeError | JSONDecodeError

text \<open>
  \<^verbatim>\<open>a > b\<close> on two \<^verbatim>\<open>str\<close> values. Python raises \<^verbatim>\<open>TypeError\<close> when the operands
  are of types it cannot order; two strings always can be, so the result is always \<open>Inr\<close>
  here. The handler of line 169 is kept in \<open>new_step\<close> as the source has it.
\<close>

definition str_gt :: "string \<Rightarrow> string \<Rightarrow> exn + bool" where
  "str_gt a b = Inr (b < a)"

text \<open>Line 160: one iteration of the dictionary comprehension over \<^verbatim>\<open>old\<close>.\<close>

definition old_step :: "entry \<Rightarrow> (string \<times> entry) list \<Rightarrow> (string \<times> entry) list" where
  "old_step e by_id =
     (case id_field e of
        None \<Rightarrow> by_id
      | Some i \<Rightarrow> if i = [] then by_id else dict_set i e by_id)"

text \<open>Lines 161-172: one iteration of the loop over \<^verbatim>\<open>new\<close>.\<close>

definition new_step :: "entry \<Rightarrow> (string \<times> entry) list \<Rightarrow> (string \<times> entry) list" where
  "new_step e by_id =
     (case id_field e of
        None \<Rightarrow> by_id
      | Some i \<Rightarrow>
          if i = [] then by_id
          else (case map_of by_id i of
                  Some cur \<Rightarrow>
                    (case str_gt (get_fetched_at e) (get_fetched_at cur) of
                       Inr newer \<Rightarrow> if newer then dict_set i e by_id else by_id
                     | Inl _ \<Rightarrow> dict_set i e by_id)
                | None \<Rightarrow> dict_set i e by_id))"

definition by_id_old :: "entry list \<Rightarrow> (string \<times> entry) list" where
  "by_id_old old = fold old_step old []"

definition by_id_of :: "entry list \<Rightarrow> entry list \<Rightarrow> (string \<times> entry) list" where
  "by_id_of old new = fold new_step new (by_id_old old)"

text \<open>
  The invariant of \<^verbatim>\<open>by_id\<close>: its keys are distinct, and every record is stored under
  its own non-empty id.
\<close>

definition dict_ok :: "(string \<times> entry) list \<Rightarrow> bool" where
  "dict_ok d \<longleftrightarrow>
     distinct (map fst d) \<and> list_all (\<lambda>p. id_field (snd p) = Some (fst p) \<and> fst p \<noteq> []) d"

text \<open>Line 173: \<^verbatim>\<open>merged = list(by_id.values())\<close>.\<close>

definition merged :: "entry list \<Rightarrow> entry list \<Rightarrow> entry list" where
  "merged old new = map snd (by_id_of old new)"

text \<open>
  Lines 175-177. Pairs of strings are ordered as Python orders tuples, first component
  first. \<^verbatim>\<open>list.sort(key=..., reverse=True)\<close> is stable: it sorts in descending order and
  leaves records with equal keys in their original relative order, which is what
  reversing, sorting stably in ascending order and reversing again does.
\<close>

definition sort_key :: "entry \<Rightarrow> string \<times> string" where
  "sort_key x = (get_date x, get_fetched_at x)"

definition sort_reverse :: "entry list \<Rightarrow> entry list" where
  "sort_reverse xs = rev (List.sort_key sort_key (rev xs))"

definition merge_and_dedupe :: "entry list \<Rightarrow> entry list \<Rightarrow> entry list" where
  "merge_and_dedupe old new = take KEEP_MAX (sort_reverse (merged old new))"

text \<open>
  The order of the persisted collection in words: \<open>a\<close> may stand before \<open>b\<close> when
  its date is later, or the dates are equal and its fetch time is not earlier.
\<close>

definition precedes :: "entry \<Rightarrow> entry \<Rightarrow> bool" where
  "precedes a b \<longleftrightarrow>
     get_date b < get_date a \<or>
     (get_date a = get_date b \<and> get_fetched_at b \<le> get_fetched_at a)"

text \<open>\<^verbatim>\<open>e['id']\<close> of an entry that has an id, and a list of entries as dictionary items.\<close>

definition key_of :: "entry \<Rightarrow> string" where
  "key_of e = (case id_field e of None \<Rightarrow> [] | Some i \<Rightarrow> i)"

definition items :: "entry list \<Rightarrow> (string \<times> entry) list" where
  "items xs = map (\<lambda>e. (key_of e, e)) xs"

text \<open>What the slice \<^verbatim>\<open>merged[:KEEP_MAX]\<close> of line 178 leaves out.\<close>

definition dropped :: "entry list \<Rightarrow> entry list \<Rightarrow> entry list" where
  "dropped old new = drop KEEP_MAX (sort_reverse (merged old new))"

section \<open>The main flow: deduplication within a run and the date filter\<close>

text \<open>Lines 193-197: \<^verbatim>\<open>uniq\<close> keeps the first entry seen for every identifier.\<close>

definition uniq_step :: "entry \<Rightarrow> (string \<times> entry) list \<Rightarrow> (string \<times> entry) list" where
  "uniq_step e uniq =
     (case id_field e of
        None \<Rightarrow> uniq
      | Some i \<Rightarrow> if i \<noteq> [] \<and> map_of uniq i = None then dict_set i e uniq else uniq)"

definition new_list :: "entry list \<Rightarrow> entry list" where
  "new_list all_new = map snd (fold uniq_step all_new [])"

text \<open>\<^verbatim>\<open>s.replace('Z', '+00:00')\<close>.\<close>

definition replace_Z :: "string \<Rightarrow> string" where
  "replace_Z s = concat (map (\<lambda>c. if c = CHR ''Z'' then ''+00:00'' else [c]) s)"

text \<open>
  Lines 203-217. \<^verbatim>\<open>datetime.fromisoformat(s).date()\<close> belongs to the Python library, not
  to this program, and what it accepts depends on the Python version: it is the parameter
  \<open>fromisoformat\<close>, which returns \<open>None\<close> where the library raises. \<open>yesterday\<close> is the
  target day.
\<close>

fun new_list_filtered :: "(string \<Rightarrow> 'd option) \<Rightarrow> 'd \<Rightarrow> entry list \<Rightarrow> entry list" where
  "new_list_filtered fromisoformat yesterday [] = []"
| "new_list_filtered fromisoformat yesterday (e # es) =
     (let pub_str = get_date e; rest = new_list_filtered fromisoformat yesterday es in
      if pub_str = [] then rest
      else (case fromisoformat pub_str of
              Some pub_date \<Rightarrow> if pub_date = yesterday then e # rest else rest
            | None \<Rightarrow>
                (case fromisoformat (replace_Z (get_fetched_at e)) of
                   Some pub_date \<Rightarrow> if pub_date = yesterday then e # rest else rest
                 | None \<Rightarrow> rest)))"

text \<open>
  The condition under which the loop of lines 204-217 keeps a record: the date is not
  empty, and it parses to the target day, or it does not parse and the fetch time does.
\<close>

definition passes :: "(string \<Rightarrow> 'd option) \<Rightarrow> 'd \<Rightarrow> entry \<Rightarrow> bool" where
  "passes fromisoformat yesterday e \<longleftrightarrow>
     get_date e \<noteq> [] \<and>
     (fromisoformat (get_date e) = Some yesterday \<or>
      (fromisoformat (get_date e) = None \<and>
       fromisoformat (replace_Z (get_fetched_at e)) = Some yesterday))"

text \<open>
  A parser for the concrete examples below. It reads the fixed-width prefix
  \<^verbatim>\<open>YYYY-MM-DD\<close> and accepts what follows when it is empty or starts with a separator
  character; both of the shapes the program writes (\<^verbatim>\<open>2025-10-26\<close> and
  \<^verbatim>\<open>2025-10-26T08:00:00+00:00\<close>) are parsed by the library to the same day.
\<close>

definition digit :: "char \<Rightarrow> nat option" where
  "digit c = (if c \<in> set ''0123456789'' then Some (of_char c - 48) else None)"

fun number :: "string \<Rightarrow> nat option" where
  "number [] = None"
| "number cs =
     (if list_all (\<lambda>c. digit c \<noteq> None) cs
      then Some (foldl (\<lambda>n c. 10 * n + the (digit c)) 0 cs) else None)"

definition iso_day :: "string \<Rightarrow> (nat \<times> nat \<times> nat) option" where
  "iso_day s =
     (if length s < 10 \<or> s ! 4 \<noteq> CHR ''-'' \<or> s ! 7 \<noteq> CHR ''-'' \<or> length s = 11 then None
      else (case (number (take 4 s), number (take 2 (drop 5 s)), number (take 2 (drop 8 s))) of
              (Some y, Some m, Some d) \<Rightarrow>
                if 1 \<le> m \<and> m \<le> 12 \<and> 1 \<le> d \<and> d \<le> 31 then Some (y, m, d) else None
            | _ \<Rightarrow> None))"

section \<open>Tag extraction of the normalizer\<close>

text \<open>\<^verbatim>\<open>c.split('.')\<close>: the pieces between the separators; never the empty list.\<close>

fun split_on :: "char \<Rightarrow> string \<Rightarrow> string list" where
  "split_on sep [] = [[]]"
| "split_on sep (c # cs) =
     (if c = sep then [] # split_on sep cs
      else (case split_on sep cs of
              [] \<Rightarrow> [[c]]
            | p # ps \<Rightarrow> (c # p) # ps))"

text \<open>Lines 105-109: one iteration of the loop over the category codes.\<close>

definition tags_step :: "string \<Rightarrow> string list \<Rightarrow> string list" where
  "tags_step c ts =
     (if c \<noteq> []
      then (if CHR ''.'' \<in> set c
            then (ts @ [c]) @ [last (split_on CHR ''.'' c)]
            else ts @ [c])
      else ts)"

text \<open>
  \<^verbatim>\<open>t.strip()\<close> removes the white space of Unicode from both ends of a string. The
  strings are UTF-8 bytes, so a white space character is the byte sequence that encodes
  it: the control characters U+0009 to U+000D and U+001C to U+001F, the space, U+0085,
  U+00A0, U+1680, U+2000 to U+200A, U+2028, U+2029, U+202F, U+205F and U+3000. In
  well-formed UTF-8 such a sequence at the start or the end of a string is that
  character.
\<close>

definition white_space :: "string list" where
  "white_space =
     [[CHR 0x09], [CHR 0x0A], [CHR 0x0B], [CHR 0x0C], [CHR 0x0D],
      [CHR 0x1C], [CHR 0x1D], [CHR 0x1E], [CHR 0x1F], [CHR 0x20],
      [CHR 0xC2, CHR 0x85], [CHR 0xC2, CHR 0xA0],
      [CHR 0xE1, CHR 0x9A, CHR 0x80],
      [CHR 0xE2, CHR 0x80, CHR 0x80], [CHR 0xE2, CHR 0x80, CHR 0x81],
      [CHR 0xE2, CHR 0x80, CHR 0x82], [CHR 0xE2, CHR 0x80, CHR 0x83],
      [CHR 0xE2, CHR 0x80, CHR 0x84], [CHR 0xE2, CHR 0x80, CHR 0x85],
      [CHR 0xE2, CHR 0x80, CHR 0x86], [CHR 0xE2, CHR 0x80, CHR 0x87],
      [CHR 0xE2, CHR 0x80, CHR 0x88], [CHR 0xE2, CHR 0x80, CHR 0x89],
      [CHR 0xE2, CHR 0x80, CHR 0x8A],
      [CHR 0xE2, CHR 0x80, CHR 0xA8], [CHR 0xE2, CHR 0x80, CHR 0xA9],
      [CHR 0xE2, CHR 0x80, CHR 0xAF], [CHR 0xE2, CHR 0x81, CHR 0x9F],
      [CHR 0xE3, CHR 0x80, CHR 0x80]]"

text \<open>The length of the first of the sequences \<open>ws\<close> that \<open>s\<close> starts with, or 0.\<close>

fun leading :: "string list \<Rightarrow> string \<Rightarrow> nat" where
  "leading [] s = 0"
| "leading (w # ws) s =
     (if w \<noteq> [] \<and> take (length w) s = w then length w else leading ws s)"

function drop_leading :: "string list \<Rightarrow> string \<Rightarrow> string" where
  "drop_leading ws s =
     (if leading ws s = 0 then s else drop_leading ws (drop (leading ws s) s))"
  by pat_completeness auto
termination
proof (relation "measure (\<lambda>(ws, s). length s)")
  show "wf (measure (\<lambda>(ws, s). length s))"
    by simp
next
  fix ws :: "string list" and s :: string
  assume pos: "leading ws s \<noteq> 0"
  have "s \<noteq> []"
  proof
    assume "s = []"
    moreover have "leading vs [] = 0" for vs
      by (induction vs) auto
    ultimately show False using pos by simp
  qed
  with pos show "((ws, drop (leading ws s) s), (ws, s)) \<in> measure (\<lambda>(ws, s). length s)"
    by simp
qed

declare drop_leading.simps [simp del]

definition lstrip :: "string \<Rightarrow> string" where
  "lstrip s = drop_leading white_space s"

definition rstrip :: "string \<Rightarrow> string" where
  "rstrip s = rev (drop_leading (map rev white_space) (rev s))"

definition strip :: "string \<Rightarrow> string" where
  "strip s = rstrip (lstrip s)"

text \<open>Lines 112-118: one iteration of the loop that removes duplicates.\<close>

definition clean_step :: "string \<Rightarrow> string set \<times> string list \<Rightarrow> string set \<times> string list" where
  "clean_step t st =
     (let tt = strip t in
      if tt \<noteq> [] \<and> tt \<notin> fst st then (insert tt (fst st), snd st @ [tt]) else st)"

definition tags_clean :: "string list \<Rightarrow> string list" where
  "tags_clean cats = snd (fold clean_step (fold tags_step cats []) ({}, []))"

text \<open>
  The tag rule in the words of the specification: every code, followed by the text after
  its last dot when it has one, then duplicates removed keeping the first occurrence.
\<close>

definition after_last_dot :: "string \<Rightarrow> string" where
  "after_last_dot c = rev (takeWhile (\<lambda>x. x \<noteq> CHR ''.'') (rev c))"

definition emit :: "string \<Rightarrow> string list" where
  "emit c = (if CHR ''.'' \<in> set c then [c, after_last_dot c] else [c])"

function first_seen :: "'a list \<Rightarrow> 'a list" where
  "first_seen [] = []"
| "first_seen (x # xs) = x # first_seen (removeAll x xs)"
  by pat_completeness auto
termination
  by (relation "measure length") (auto simp: less_Suc_eq_le length_removeAll_less_eq)

definition spec_tags :: "string list \<Rightarrow> string list" where
  "spec_tags cats = first_seen (concat (map emit cats))"

section \<open>Loading the store\<close>

text \<open>
  Lines 144-151. The file system is seen through the state of the one path the function
  reads: the file is absent, present but not readable (\<^verbatim>\<open>open\<close> or the decoding of its
  bytes raises), or present with a text. \<^verbatim>\<open>json.load\<close> is the library's; it is the
  parameter \<open>json_load\<close>, returning \<open>Inl\<close> where the library raises.
\<close>

datatype store_file = Absent | Unreadable exn | Text string

definition exists :: "store_file \<Rightarrow> bool" where
  "exists f = (f \<noteq> Absent)"

definition open_read :: "store_file \<Rightarrow> exn + string" where
  "open_read f = (case f of Absent \<Rightarrow> Inl OSError | Unreadable x \<Rightarrow> Inl x | Text s \<Rightarrow> Inr s)"

definition load_existing :: "(string \<Rightarrow> exn + entry list) \<Rightarrow> store_file \<Rightarrow> exn + entry list" where
  "load_existing json_load f =
     (if \<not> exists f then Inr []
      else (case (case open_read f of Inl x \<Rightarrow> Inl x | Inr s \<Rightarrow> json_load s) of
              Inl x \<Rightarrow> Inr []
            | Inr v \<Rightarrow> Inr v))"

text \<open>A decoder for the concrete examples: it accepts the empty array only.\<close>

definition empty_array_only :: "string \<Rightarrow> exn + entry list" where
  "empty_array_only s = (if s = ''[]'' then Inr [] else Inl JSONDecodeError)"

section \<open>Concrete inputs\<close>

text \<open>An entry with the three fields the merge and the filter read; the rest is blank.\<close>

definition paper :: "string \<Rightarrow> string \<Rightarrow> string \<Rightarrow> entry" where
  "paper i d t =
     \<lparr>id_field = Some i, title = [], date = Some d, tags = [], authors = [],
      institution = [], link = None, abstract = [], fetched_at = Some t\<rparr>"

text \<open>A record with an empty date, fetched on the target day.\<close>

definition undated :: entry where
  "undated = paper ''2510.00003v1'' [] ''2025-10-26T08:00:00Z''"

text \<open>A record with a date that does not parse, fetched on the target day.\<close>

definition misdated :: entry where
  "misdated = paper ''2510.00004v1'' ''26 Oct 2025'' ''2025-10-26T08:00:00Z''"

text \<open>A stored record and an incoming one with the same id, fetched an hour earlier.\<close>

definition stored :: entry where
  "stored = paper ''2510.00001v1'' ''2025-10-26'' ''2025-10-27T02:00:00Z''"

definition earlier :: entry where
  "earlier = paper ''2510.00001v1'' ''2025-10-26'' ''2025-10-27T01:00:00Z''"

definition later :: entry where
  "later = paper ''2510.00001v1'' ''2025-10-26'' ''2025-10-27T03:00:00Z''"

definition other :: entry where
  "other = paper ''2510.00002v1'' ''2025-10-27'' ''2025-10-27T01:00:00Z''"

text \<open>
  A store at the retention cap: 599 records of one day and one older record, \<open>stale\<close>,
  at its end. The batch brings a record \<open>fresh_x\<close> with the id of \<open>stale\<close>, fetched
  earlier than \<open>stale\<close> but dated later, and a record \<open>fresh_y\<close> with a new id.
\<close>

definition filler :: "nat \<Rightarrow> entry" where
  "filler n = paper (replicate (Suc n) CHR ''a'') ''2025-10-25'' ''2025-10-26T01:00:00Z''"

definition fillers :: "entry list" where
  "fillers = map filler [0..<599]"

definition stale :: entry where
  "stale = paper ''x'' ''2025-10-01'' ''2025-10-29T01:00:00Z''"

definition fresh_x :: entry where
  "fresh_x = paper ''x'' ''2025-10-28'' ''2025-10-02T01:00:00Z''"

definition fresh_y :: entry where
  "fresh_y = paper ''y'' ''2025-10-27'' ''2025-10-28T01:00:00Z''"

definition full_store :: "entry list" where
  "full_store = fillers @ [stale]"

definition batch :: "entry list" where
  "batch = [fresh_x, fresh_y]"

text \<open>
  A second store at the cap: the 599 records of one day and, at its end, a record
  \<open>slow\<close> of the same day that was fetched half an hour before them.
\<close>

definition slow :: entry where
  "slow = paper ''z'' ''2025-10-25'' ''2025-10-26T00:30:00Z''"

definition same_day_store :: "entry list" where
  "same_day_store = fillers @ [slow]"

text \<open>
  An incoming record with the id and the fetch time of \<open>stored\<close> and another title.
\<close>

definition tied :: entry where
  "tied = stored\<lparr>title := ''Revised''\<rparr>"

section \<open>Association lists\<close>

lemma dict_set_mem:
  "p \<in> set (dict_set k v al) \<Longrightarrow> p = (k, v) \<or> p \<in> set al"
  by (induction al) (auto split: if_splits)

lemma dict_set_keys:
  "map fst (dict_set k v al) =
     (if k \<in> set (map fst al) then map fst al else map fst al @ [k])"
  by (induction al) force+

lemma dict_set_distinct:
  "distinct (map fst al) \<Longrightarrow> distinct (map fst (dict_set k v al))"
  by (simp add: dict_set_keys)

lemma dict_set_lookup: "map_of (dict_set k v al) = (map_of al)(k \<mapsto> v)"
  by (induction al) (auto simp: fun_eq_iff)

lemma dict_set_fresh: "map_of al k = None \<Longrightarrow> dict_set k v al = al @ [(k, v)]"
  by (induction al) (auto split: if_splits)

lemma dict_set_values: "snd ` set (dict_set k v al) \<subseteq> insert v (snd ` set al)"
  using dict_set_mem[of _ k v al] by fastforce

section \<open>The dictionary of the merge\<close>

lemma dict_ok_Nil: "dict_ok []"
  by (simp add: dict_ok_def)

lemma dict_ok_dict_set:
  assumes "dict_ok d" and "id_field e = Some i" and "i \<noteq> []"
  shows "dict_ok (dict_set i e d)"
proof -
  have "id_field (snd p) = Some (fst p) \<and> fst p \<noteq> []" if "p \<in> set (dict_set i e d)" for p
    using dict_set_mem[OF that] assms by (auto simp: dict_ok_def list_all_iff)
  with assms(1) show ?thesis
    by (simp add: dict_ok_def list_all_iff dict_set_distinct)
qed

lemma dict_ok_old_step: "dict_ok d \<Longrightarrow> dict_ok (old_step e d)"
  by (simp add: old_step_def dict_ok_dict_set split: option.splits)

lemma dict_ok_new_step: "dict_ok d \<Longrightarrow> dict_ok (new_step e d)"
  by (simp add: new_step_def str_gt_def dict_ok_dict_set split: option.splits)

lemma dict_ok_uniq_step: "dict_ok d \<Longrightarrow> dict_ok (uniq_step e d)"
  by (simp add: uniq_step_def dict_ok_dict_set split: option.splits)

lemma dict_ok_fold_old: "dict_ok d \<Longrightarrow> dict_ok (fold old_step xs d)"
  by (induction xs arbitrary: d) (simp_all add: dict_ok_old_step)

lemma dict_ok_fold_new: "dict_ok d \<Longrightarrow> dict_ok (fold new_step xs d)"
  by (induction xs arbitrary: d) (simp_all add: dict_ok_new_step)

lemma dict_ok_fold_uniq: "dict_ok d \<Longrightarrow> dict_ok (fold uniq_step xs d)"
  by (induction xs arbitrary: d) (simp_all add: dict_ok_uniq_step)

lemma dict_ok_by_id_of: "dict_ok (by_id_of old new)"
  by (simp add: by_id_of_def by_id_old_def dict_ok_fold_new dict_ok_fold_old dict_ok_Nil)

lemma dict_ok_ids: "dict_ok d \<Longrightarrow> map id_field (map snd d) = map Some (map fst d)"
  by (induction d) (auto simp: dict_ok_def)

lemma dict_ok_distinct_ids:
  assumes "dict_ok d"
  shows "distinct (map id_field (map snd d))"
proof -
  have "distinct (map Some (map fst d))"
    using assms by (auto simp: distinct_map dict_ok_def inj_on_def)
  then show ?thesis
    by (simp only: dict_ok_ids[OF assms])
qed

lemma dict_ok_truthy: "dict_ok d \<Longrightarrow> e \<in> snd ` set d \<Longrightarrow> truthy_id e"
  by (auto simp: dict_ok_def list_all_iff truthy_id_def)

lemma dict_ok_lookup:
  "dict_ok d \<Longrightarrow> e \<in> snd ` set d \<Longrightarrow> id_field e = Some i \<Longrightarrow> map_of d i = Some e"
  by (auto simp: dict_ok_def list_all_iff)

lemma old_step_values: "snd ` set (old_step e d) \<subseteq> insert e (snd ` set d)"
  using dict_set_values[of _ e d] by (auto simp: old_step_def split: option.splits)

lemma new_step_values: "snd ` set (new_step e d) \<subseteq> insert e (snd ` set d)"
  using dict_set_values[of _ e d] by (auto simp: new_step_def str_gt_def split: option.splits)

lemma fold_old_values: "snd ` set (fold old_step xs d) \<subseteq> set xs \<union> snd ` set d"
proof (induction xs arbitrary: d)
  case Nil
  show ?case by simp
next
  case (Cons x xs)
  have "snd ` set (fold old_step xs (old_step x d)) \<subseteq> set xs \<union> snd ` set (old_step x d)"
    by (rule Cons.IH)
  with old_step_values[of x d] show ?case
    by simp blast
qed

lemma fold_new_values: "snd ` set (fold new_step xs d) \<subseteq> set xs \<union> snd ` set d"
proof (induction xs arbitrary: d)
  case Nil
  show ?case by simp
next
  case (Cons x xs)
  have "snd ` set (fold new_step xs (new_step x d)) \<subseteq> set xs \<union> snd ` set (new_step x d)"
    by (rule Cons.IH)
  with new_step_values[of x d] show ?case
    by simp blast
qed

lemma set_merged: "set (merged old new) \<subseteq> set old \<union> set new"
  using fold_new_values[of new "by_id_old old"] fold_old_values[of old "[]"]
  by (auto simp: merged_def by_id_of_def by_id_old_def)

lemma set_sort_reverse: "set (sort_reverse xs) = set xs"
  by (simp add: sort_reverse_def)

lemma mset_sort_reverse: "mset (sort_reverse xs) = mset xs"
  by (simp add: sort_reverse_def)

lemma length_sort_reverse: "length (sort_reverse xs) = length xs"
  by (simp add: sort_reverse_def)

lemma set_merge_and_dedupe: "set (merge_and_dedupe old new) \<subseteq> set (merged old new)"
proof -
  have "set (merge_and_dedupe old new) \<subseteq> set (sort_reverse (merged old new))"
    unfolding merge_and_dedupe_def by (rule set_take_subset)
  then show ?thesis by (simp add: set_sort_reverse)
qed

section \<open>Frame of the merge\<close>

text \<open>
  C10. The merge builds no record and changes none: every record of the collection it
  returns is, field for field, a record of the existing collection or of the incoming
  batch.
\<close>

theorem merge_and_dedupe_frame:
  "set (merge_and_dedupe old new) \<subseteq> set old \<union> set new"
  using set_merge_and_dedupe[of old new] set_merged[of old new] by blast

section \<open>The sort\<close>

lemma precedes_sort_key: "precedes a b \<longleftrightarrow> sort_key b \<le> sort_key a"
  by (auto simp: precedes_def sort_key_def less_eq_prod_def)

lemma rev_sort_reverse: "rev (sort_reverse xs) = List.sort_key sort_key (rev xs)"
  by (simp add: sort_reverse_def)

lemma sorted_sort_reverse: "sorted_wrt precedes (sort_reverse xs)"
proof -
  have "sorted (map sort_key (rev (sort_reverse xs)))"
    by (simp only: rev_sort_reverse sorted_sort_key)
  then have "sorted_wrt (\<lambda>a b. sort_key b \<le> sort_key a) (sort_reverse xs)"
    by (simp add: sorted_map sorted_wrt_rev)
  then show ?thesis
    by (simp add: precedes_sort_key[abs_def])
qed

lemma sort_reverse_sorted_id:
  assumes "sorted_wrt precedes xs"
  shows "sort_reverse xs = xs"
proof -
  from assms have "sorted (map sort_key (rev xs))"
    by (simp add: sorted_map sorted_wrt_rev precedes_sort_key[abs_def])
  then have "List.sort_key sort_key (rev xs) = rev xs"
    by (rule sort_key_id_if_sorted)
  then show ?thesis
    by (simp add: sort_reverse_def)
qed

lemma insort_key_greatest:
  "\<forall>x \<in> set xs. f x < f e \<Longrightarrow> insort_key f e xs = xs @ [e]"
  by (induction xs) auto

lemma sort_reverse_snoc_greatest:
  assumes "sorted_wrt precedes xs" and "\<forall>x \<in> set xs. sort_key x < sort_key e"
  shows "sort_reverse (xs @ [e]) = e # xs"
proof -
  from assms(1) have "sorted (map sort_key (rev xs))"
    by (simp add: sorted_map sorted_wrt_rev precedes_sort_key[abs_def])
  then have "List.sort_key sort_key (rev xs) = rev xs"
    by (rule sort_key_id_if_sorted)
  then have "List.sort_key sort_key (rev (xs @ [e])) = insort_key sort_key e (rev xs)"
    by simp
  also have "\<dots> = rev xs @ [e]"
    using assms(2) by (simp add: insort_key_greatest)
  finally show ?thesis
    by (simp add: sort_reverse_def)
qed

lemma sorted_wrt_take_drop:
  assumes "sorted_wrt P xs" and "a \<in> set (take n xs)" and "b \<in> set (drop n xs)"
  shows "P a b"
proof -
  from assms(1) have "sorted_wrt P (take n xs @ drop n xs)" by simp
  with assms(2,3) show ?thesis
    unfolding sorted_wrt_append by blast
qed

lemma sorted_merge_and_dedupe: "sorted_wrt precedes (merge_and_dedupe old new)"
  unfolding merge_and_dedupe_def by (rule sorted_wrt_take) (rule sorted_sort_reverse)

lemma length_merge_and_dedupe: "length (merge_and_dedupe old new) \<le> KEEP_MAX"
  by (simp add: merge_and_dedupe_def)

lemma kept_append_dropped:
  "merge_and_dedupe old new @ dropped old new = sort_reverse (merged old new)"
  by (simp add: merge_and_dedupe_def dropped_def)

section \<open>Entries with distinct ids\<close>

lemma truthy_id_key: "truthy_id e \<Longrightarrow> id_field e = Some (key_of e) \<and> key_of e \<noteq> []"
  by (auto simp: truthy_id_def key_of_def split: option.splits)

lemma old_step_fresh:
  "truthy_id e \<Longrightarrow> key_of e \<notin> fst ` set d \<Longrightarrow> old_step e d = d @ [(key_of e, e)]"
  using truthy_id_key[of e]
  by (simp add: old_step_def dict_set_fresh map_of_eq_None_iff)

lemma new_step_fresh:
  assumes "truthy_id e" and "key_of e \<notin> fst ` set d"
  shows "new_step e d = d @ [(key_of e, e)]"
proof -
  from assms(2) have none: "map_of d (key_of e) = None"
    by (simp add: map_of_eq_None_iff)
  with truthy_id_key[OF assms(1)] show ?thesis
    by (simp add: new_step_def dict_set_fresh)
qed

lemma new_step_skip: "\<not> truthy_id e \<Longrightarrow> new_step e d = d"
  by (auto simp: new_step_def truthy_id_def split: option.splits)

lemma new_step_keep:
  assumes "map_of d (key_of e) = Some r" and "get_fetched_at e \<le> get_fetched_at r"
  shows "new_step e d = d"
  using assms by (auto simp: new_step_def str_gt_def key_of_def split: option.splits)

lemma fold_old_step_fresh:
  assumes "list_all truthy_id xs" and "distinct (map key_of xs)"
    and "set (map key_of xs) \<inter> fst ` set d = {}"
  shows "fold old_step xs d = d @ items xs"
  using assms
proof (induction xs arbitrary: d)
  case Nil
  show ?case by (simp add: items_def)
next
  case (Cons x xs)
  from Cons.prems have step: "old_step x d = d @ [(key_of x, x)]"
    by (intro old_step_fresh) auto
  have "fold old_step xs (d @ [(key_of x, x)]) = (d @ [(key_of x, x)]) @ items xs"
    using Cons.prems by (intro Cons.IH) auto
  with step show ?case by (simp add: items_def)
qed

lemma fold_new_step_fresh:
  assumes "list_all truthy_id xs" and "distinct (map key_of xs)"
    and "set (map key_of xs) \<inter> fst ` set d = {}"
  shows "fold new_step xs d = d @ items xs"
  using assms
proof (induction xs arbitrary: d)
  case Nil
  show ?case by (simp add: items_def)
next
  case (Cons x xs)
  from Cons.prems have step: "new_step x d = d @ [(key_of x, x)]"
    by (intro new_step_fresh) auto
  have "fold new_step xs (d @ [(key_of x, x)]) = (d @ [(key_of x, x)]) @ items xs"
    using Cons.prems by (intro Cons.IH) auto
  with step show ?case by (simp add: items_def)
qed

lemma by_id_old_distinct:
  "list_all truthy_id xs \<Longrightarrow> distinct (map key_of xs) \<Longrightarrow> by_id_old xs = items xs"
  using fold_old_step_fresh[of xs "[]"] by (simp add: by_id_old_def)

lemma map_snd_items: "map snd (items xs) = xs"
  by (simp add: items_def comp_def)

lemma map_fst_items: "map fst (items xs) = map key_of xs"
  by (simp add: items_def comp_def)

section \<open>The store at the cap\<close>

lemmas entry_simps =
  paper_def key_of_def truthy_id_def get_date_def get_fetched_at_def sort_key_def
  precedes_def less_prod_def

lemma sorted_wrt_all: "(\<forall>x \<in> set xs. \<forall>y \<in> set xs. P x y) \<Longrightarrow> sorted_wrt P xs"
  by (induction xs) auto

lemma keys_items: "fst ` set (items xs) = set (map key_of xs)"
  by (simp add: items_def image_image)

lemma length_fillers: "length fillers = 599"
  by (simp add: fillers_def)

lemma key_of_filler: "key_of (filler n) = replicate (Suc n) CHR ''a''"
  by (simp add: filler_def entry_simps)

lemma keys_fillers: "map key_of fillers = map (\<lambda>n. replicate (Suc n) CHR ''a'') [0..<599]"
  by (simp add: fillers_def key_of_filler comp_def)

lemma distinct_keys_fillers: "distinct (map key_of fillers)"
proof -
  have "inj (\<lambda>n. replicate (Suc n) CHR ''a'')"
    by (auto simp: inj_on_def dest: arg_cong[where f = length])
  then show ?thesis
    unfolding keys_fillers by (simp add: distinct_map inj_on_def)
qed

lemma x_not_filler: "''x'' \<notin> set (map key_of fillers)"
  by (auto simp: keys_fillers)

lemma y_not_filler: "''y'' \<notin> set (map key_of fillers)"
  by (auto simp: keys_fillers)

lemma truthy_fillers: "list_all truthy_id fillers"
  by (simp add: fillers_def list_all_iff filler_def entry_simps)

lemma key_of_named:
  "key_of stale = ''x''" "key_of fresh_x = ''x''" "key_of fresh_y = ''y''"
  "truthy_id stale" "truthy_id fresh_x" "truthy_id fresh_y"
  by (simp_all add: stale_def fresh_x_def fresh_y_def entry_simps)

lemma sorted_fillers: "sorted_wrt precedes fillers"
  by (rule sorted_wrt_all) (auto simp: fillers_def filler_def entry_simps)

lemma sorted_full_store: "sorted_wrt precedes full_store"
  unfolding full_store_def sorted_wrt_append
  using sorted_fillers by (auto simp: fillers_def filler_def stale_def entry_simps)

lemma by_id_old_full_store: "by_id_old full_store = items full_store"
proof (rule by_id_old_distinct)
  show "list_all truthy_id full_store"
    using truthy_fillers by (simp add: full_store_def key_of_named)
  show "distinct (map key_of full_store)"
    using distinct_keys_fillers x_not_filler by (simp add: full_store_def key_of_named)
qed

lemma lookup_x_full_store: "map_of (items full_store) ''x'' = Some stale"
proof -
  have "map_of (items fillers) ''x'' = None"
    using x_not_filler by (simp add: map_of_eq_None_iff keys_items)
  then show ?thesis
    by (simp add: full_store_def items_def map_of_append key_of_named map_add_def)
qed

lemma by_id_of_full_store:
  "by_id_of full_store batch = items (full_store @ [fresh_y])"
proof -
  have "get_fetched_at fresh_x \<le> get_fetched_at stale"
    by (simp add: fresh_x_def stale_def entry_simps)
  with lookup_x_full_store have 1: "new_step fresh_x (items full_store) = items full_store"
    by (intro new_step_keep) (simp_all add: key_of_named)
  have "key_of fresh_y \<notin> fst ` set (items full_store)"
    using y_not_filler by (simp add: keys_items full_store_def key_of_named)
  then have 2: "new_step fresh_y (items full_store) = items full_store @ [(key_of fresh_y, fresh_y)]"
    by (intro new_step_fresh) (simp_all add: key_of_named)
  show ?thesis
    by (simp add: by_id_of_def by_id_old_full_store batch_def 1 2) (simp add: items_def)
qed

lemma merged_full_store: "merged full_store batch = full_store @ [fresh_y]"
  by (simp only: merged_def by_id_of_full_store map_snd_items)

lemma sort_full_store:
  "sort_reverse (merged full_store batch) = fresh_y # fillers @ [stale]"
proof -
  have "\<forall>x \<in> set full_store. sort_key x < sort_key fresh_y"
    by (auto simp: full_store_def fillers_def filler_def stale_def fresh_y_def entry_simps)
  with sorted_full_store have "sort_reverse (full_store @ [fresh_y]) = fresh_y # full_store"
    by (rule sort_reverse_snoc_greatest)
  then show ?thesis
    unfolding merged_full_store by (simp add: full_store_def)
qed

lemma merge_full_store: "merge_and_dedupe full_store batch = fresh_y # fillers"
  by (simp add: merge_and_dedupe_def sort_full_store KEEP_MAX_def length_fillers)

lemma dropped_full_store: "dropped full_store batch = [stale]"
  by (simp add: dropped_def sort_full_store KEEP_MAX_def length_fillers)

lemma by_id_old_again: "by_id_old (fresh_y # fillers) = items (fresh_y # fillers)"
proof (rule by_id_old_distinct)
  show "list_all truthy_id (fresh_y # fillers)"
    using truthy_fillers by (simp add: key_of_named)
  show "distinct (map key_of (fresh_y # fillers))"
    using distinct_keys_fillers y_not_filler by (simp add: key_of_named)
qed

lemma by_id_of_again:
  "by_id_of (fresh_y # fillers) batch = items ((fresh_y # fillers) @ [fresh_x])"
proof -
  let ?d = "items (fresh_y # fillers)"
  have "key_of fresh_x \<notin> fst ` set ?d"
    using x_not_filler by (simp add: keys_items key_of_named)
  then have 1: "new_step fresh_x ?d = ?d @ [(key_of fresh_x, fresh_x)]"
    by (intro new_step_fresh) (simp_all add: key_of_named)
  have "map_of (?d @ [(key_of fresh_x, fresh_x)]) (key_of fresh_y) = Some fresh_y"
    by (simp add: items_def key_of_named)
  then have 2: "new_step fresh_y (?d @ [(key_of fresh_x, fresh_x)]) = ?d @ [(key_of fresh_x, fresh_x)]"
    by (rule new_step_keep) simp
  show ?thesis
    by (simp add: by_id_of_def by_id_old_again batch_def 1 2) (simp add: items_def)
qed

lemma merge_again:
  "merge_and_dedupe (fresh_y # fillers) batch = fresh_x # fresh_y # take 598 fillers"
proof -
  have "sorted_wrt precedes (fresh_y # fillers)"
    using sorted_fillers by (auto simp: fillers_def filler_def fresh_y_def entry_simps)
  moreover have "\<forall>x \<in> set (fresh_y # fillers). sort_key x < sort_key fresh_x"
    by (auto simp: fillers_def filler_def fresh_x_def fresh_y_def entry_simps)
  ultimately have "sort_reverse ((fresh_y # fillers) @ [fresh_x]) = fresh_x # fresh_y # fillers"
    by (rule sort_reverse_snoc_greatest)
  then show ?thesis
    by (simp add: merge_and_dedupe_def merged_def by_id_of_again map_snd_items KEEP_MAX_def)
qed

section \<open>A store at the cap with records of one day\<close>

lemma z_not_filler: "''z'' \<notin> set (map key_of fillers)"
  by (auto simp: keys_fillers)

lemma key_of_slow: "key_of slow = ''z''" "truthy_id slow"
  by (simp_all add: slow_def entry_simps)

lemma by_id_of_same_day:
  "by_id_of same_day_store [fresh_y] = items (same_day_store @ [fresh_y])"
proof -
  have start: "by_id_old same_day_store = items same_day_store"
  proof (rule by_id_old_distinct)
    show "list_all truthy_id same_day_store"
      using truthy_fillers by (simp add: same_day_store_def key_of_slow)
    show "distinct (map key_of same_day_store)"
      using distinct_keys_fillers z_not_filler by (simp add: same_day_store_def key_of_slow)
  qed
  have "key_of fresh_y \<notin> fst ` set (items same_day_store)"
    using y_not_filler by (simp add: keys_items same_day_store_def key_of_named key_of_slow)
  then have "new_step fresh_y (items same_day_store) =
      items same_day_store @ [(key_of fresh_y, fresh_y)]"
    by (intro new_step_fresh) (simp_all add: key_of_named)
  with start show ?thesis
    by (simp add: by_id_of_def items_def)
qed

lemma sort_same_day:
  "sort_reverse (merged same_day_store [fresh_y]) = fresh_y # fillers @ [slow]"
proof -
  have "sorted_wrt precedes same_day_store"
    unfolding same_day_store_def sorted_wrt_append
    using sorted_fillers by (auto simp: fillers_def filler_def slow_def entry_simps)
  moreover have "\<forall>x \<in> set same_day_store. sort_key x < sort_key fresh_y"
    by (auto simp: same_day_store_def fillers_def filler_def slow_def fresh_y_def entry_simps)
  ultimately have "sort_reverse (same_day_store @ [fresh_y]) = fresh_y # same_day_store"
    by (rule sort_reverse_snoc_greatest)
  then show ?thesis
    unfolding merged_def by_id_of_same_day map_snd_items by (simp add: same_day_store_def)
qed

lemma merge_same_day: "merge_and_dedupe same_day_store [fresh_y] = fresh_y # fillers"
  by (simp add: merge_and_dedupe_def sort_same_day KEEP_MAX_def length_fillers)

lemma dropped_same_day: "dropped same_day_store [fresh_y] = [slow]"
  by (simp add: dropped_def sort_same_day KEEP_MAX_def length_fillers)

lemma filler_0_kept: "filler 0 \<in> set (merge_and_dedupe same_day_store [fresh_y])"
proof -
  have "filler 0 \<in> set fillers"
    by (auto simp: fillers_def)
  then show ?thesis
    by (simp add: merge_same_day)
qed

section \<open>Order and retention cap of the merged collection\<close>

text \<open>
  C5. For every input, the collection the merge returns is sorted in descending order by
  the pair (date, fetched_at), both compared as strings: date descending, ties broken by
  fetched_at descending. Every record stands before every later record in the sense of
  \<open>precedes\<close>.
\<close>

theorem merge_and_dedupe_sorted:
  "sorted_wrt precedes (merge_and_dedupe old new)"
  by (rule sorted_merge_and_dedupe)

text \<open>
  C4. For every input, the collection the merge returns has at most \<open>KEEP_MAX\<close> = 600
  records. The records returned and the records dropped together are the merged set,
  records are dropped only when the merged set exceeds the cap, and the dropped records
  are those with the smallest (date, fetched_at) pairs: every dropped record has an
  earlier date than every record kept, or the same date and a fetched_at that is not
  later.
\<close>

theorem retention_cap:
  "length (merge_and_dedupe old new) \<le> 600 \<and>
   mset (merge_and_dedupe old new) + mset (dropped old new) = mset (merged old new) \<and>
   (dropped old new = [] \<longleftrightarrow> length (merged old new) \<le> 600) \<and>
   (\<forall>k \<in> set (merge_and_dedupe old new). \<forall>d \<in> set (dropped old new).
      get_date d < get_date k \<or>
      (get_date d = get_date k \<and> get_fetched_at d \<le> get_fetched_at k))"
proof -
  have "length (merge_and_dedupe old new) \<le> 600"
    using length_merge_and_dedupe[of old new] by (simp add: KEEP_MAX_def)
  moreover have "mset (merge_and_dedupe old new) + mset (dropped old new) = mset (merged old new)"
    using kept_append_dropped[of old new, THEN arg_cong, of mset]
    by (simp add: mset_sort_reverse)
  moreover have "dropped old new = [] \<longleftrightarrow> length (merged old new) \<le> 600"
    by (simp add: dropped_def KEEP_MAX_def length_sort_reverse)
  moreover have "get_date d < get_date k \<or>
      (get_date d = get_date k \<and> get_fetched_at d \<le> get_fetched_at k)"
    if "k \<in> set (merge_and_dedupe old new)" and "d \<in> set (dropped old new)" for k d
  proof -
    have "precedes k d"
      using sorted_sort_reverse[of "merged old new"] that
      unfolding merge_and_dedupe_def dropped_def by (rule sorted_wrt_take_drop)
    then show ?thesis by (auto simp: precedes_def)
  qed
  ultimately show ?thesis by blast
qed

theorem retention_cap_witness:
  "length (merge_and_dedupe same_day_store [fresh_y]) = 600 \<and>
   dropped same_day_store [fresh_y] = [slow] \<and>
   filler 0 \<in> set (merge_and_dedupe same_day_store [fresh_y]) \<and>
   get_date slow = get_date (filler 0) \<and>
   get_fetched_at slow \<le> get_fetched_at (filler 0) \<and>
   get_fetched_at slow \<noteq> get_fetched_at (filler 0)"
proof -
  have gone: "slow \<in> set (dropped same_day_store [fresh_y])"
    by (simp add: dropped_same_day)
  have same: "get_date slow = get_date (filler 0)"
    "get_fetched_at slow \<noteq> get_fetched_at (filler 0)"
    by (simp_all add: slow_def filler_def entry_simps)
  from retention_cap[of same_day_store "[fresh_y]"] filler_0_kept gone
  have "get_date slow < get_date (filler 0) \<or>
      (get_date slow = get_date (filler 0) \<and>
       get_fetched_at slow \<le> get_fetched_at (filler 0))"
    by blast
  with same have "get_fetched_at slow \<le> get_fetched_at (filler 0)"
    by simp
  with same gone filler_0_kept show ?thesis
    by (simp add: merge_same_day dropped_same_day length_fillers)
qed

section \<open>Which record a key holds\<close>

lemma new_step_other:
  "id_field e \<noteq> Some k \<Longrightarrow> map_of (new_step e d) k = map_of d k"
  by (auto simp: new_step_def str_gt_def dict_set_lookup split: option.splits)

lemma new_step_same:
  assumes "id_field e = Some k" and "map_of d k = Some r"
  shows "map_of (new_step e d) k =
           Some (if k \<noteq> [] \<and> get_fetched_at r < get_fetched_at e then e else r)"
  using assms by (cases "k = []") (simp_all add: new_step_def str_gt_def dict_set_lookup)

lemma new_step_grows:
  assumes "map_of d k = Some r"
  shows "\<exists>r'. map_of (new_step e d) k = Some r' \<and> get_fetched_at r \<le> get_fetched_at r'"
proof (cases "id_field e = Some k")
  case True
  from new_step_same[OF True assms] show ?thesis by auto
next
  case False
  with assms show ?thesis by (simp add: new_step_other)
qed

lemma fold_new_step_grows:
  "map_of d k = Some r \<Longrightarrow>
   \<exists>r'. map_of (fold new_step es d) k = Some r' \<and> get_fetched_at r \<le> get_fetched_at r'"
proof (induction es arbitrary: d r)
  case Nil
  then show ?case by simp
next
  case (Cons e es)
  from new_step_grows[OF Cons.prems, of e] obtain r1
    where 1: "map_of (new_step e d) k = Some r1" and 2: "get_fetched_at r \<le> get_fetched_at r1"
    by blast
  from Cons.IH[OF 1] obtain r2
    where "map_of (fold new_step es (new_step e d)) k = Some r2"
      and "get_fetched_at r1 \<le> get_fetched_at r2"
    by blast
  with 2 show ?case by auto
qed

lemma new_step_stays_or_newer:
  assumes "map_of d k = Some r"
  shows "map_of (new_step e d) k = Some r \<or>
         (map_of (new_step e d) k = Some e \<and> get_fetched_at r < get_fetched_at e)"
proof (cases "id_field e = Some k")
  case True
  from new_step_same[OF True assms] show ?thesis by auto
next
  case False
  with assms show ?thesis by (simp add: new_step_other)
qed

lemma fold_new_step_stays_or_newer:
  "map_of d k = Some r \<Longrightarrow>
   map_of (fold new_step es d) k = Some r \<or>
   (\<exists>r' \<in> set es. map_of (fold new_step es d) k = Some r' \<and>
      get_fetched_at r < get_fetched_at r')"
proof (induction es arbitrary: d r)
  case Nil
  then show ?case by simp
next
  case (Cons e es)
  from new_step_stays_or_newer[OF Cons.prems, of e] show ?case
  proof
    assume "map_of (new_step e d) k = Some r"
    from Cons.IH[OF this] show ?thesis by auto
  next
    assume e: "map_of (new_step e d) k = Some e \<and> get_fetched_at r < get_fetched_at e"
    then have "map_of (new_step e d) k = Some e" by simp
    from Cons.IH[OF this] e show ?thesis by auto
  qed
qed

lemma new_step_enters:
  assumes "id_field e = Some k" and "k \<noteq> []"
  shows "\<exists>r. map_of (new_step e d) k = Some r \<and> get_fetched_at e \<le> get_fetched_at r"
proof (cases "map_of d k")
  case None
  with assms show ?thesis by (simp add: new_step_def dict_set_lookup)
next
  case (Some r)
  from new_step_same[OF assms(1) Some] assms(2) show ?thesis by auto
qed

lemma fold_new_step_covers:
  "e \<in> set es \<Longrightarrow> id_field e = Some k \<Longrightarrow> k \<noteq> [] \<Longrightarrow>
   \<exists>r. map_of (fold new_step es d) k = Some r \<and> get_fetched_at e \<le> get_fetched_at r"
proof (induction es arbitrary: d)
  case Nil
  then show ?case by simp
next
  case (Cons x es)
  show ?case
  proof (cases "e = x")
    case True
    from new_step_enters[OF Cons.prems(2,3), of d] obtain r1
      where 1: "map_of (new_step e d) k = Some r1"
        and 2: "get_fetched_at e \<le> get_fetched_at r1"
      by blast
    from fold_new_step_grows[OF 1, of es] 2 True show ?thesis by auto
  next
    case False
    with Cons.prems have "e \<in> set es" by simp
    from Cons.IH[OF this Cons.prems(2,3)] show ?thesis by simp
  qed
qed

lemma fold_new_step_retains:
  assumes "map_of d k = Some r"
    and "\<forall>e \<in> set es. id_field e = Some k \<longrightarrow> get_fetched_at e \<le> get_fetched_at r"
  shows "map_of (fold new_step es d) k = Some r"
  using assms
proof (induction es arbitrary: d)
  case Nil
  then show ?case by simp
next
  case (Cons e es)
  have "map_of (new_step e d) k = Some r"
  proof (cases "id_field e = Some k")
    case True
    with Cons.prems(2) have "\<not> get_fetched_at r < get_fetched_at e" by auto
    with new_step_same[OF True Cons.prems(1)] show ?thesis by simp
  next
    case False
    with Cons.prems(1) show ?thesis by (simp add: new_step_other)
  qed
  with Cons.prems(2) show ?case by (simp add: Cons.IH)
qed

lemma merged_lookup:
  assumes "r \<in> set (merged old new)" and "id_field r = Some k"
  shows "map_of (by_id_of old new) k = Some r"
  using assms dict_ok_lookup[OF dict_ok_by_id_of, of r old new k]
  by (simp add: merged_def)

lemma merged_truthy: "r \<in> set (merged old new) \<Longrightarrow> truthy_id r"
  using dict_ok_truthy[OF dict_ok_by_id_of, of r old new] by (simp add: merged_def)

lemma merged_distinct: "distinct (map id_field (merged old new))"
  using dict_ok_distinct_ids[OF dict_ok_by_id_of, of old new] by (simp add: merged_def)

lemma merge_and_dedupe_distinct: "distinct (map id_field (merge_and_dedupe old new))"
proof -
  have "mset (map id_field (sort_reverse (merged old new))) = mset (map id_field (merged old new))"
    by (simp add: mset_sort_reverse)
  from mset_eq_imp_distinct_iff[OF this] merged_distinct[of old new]
  have "distinct (map id_field (sort_reverse (merged old new)))" by simp
  then show ?thesis
    by (simp add: merge_and_dedupe_def take_map[symmetric] distinct_take)
qed

lemma truthy_key_inj:
  "truthy_id a \<Longrightarrow> truthy_id b \<Longrightarrow> key_of a = key_of b \<Longrightarrow> id_field a = id_field b"
  by (auto simp: truthy_id_def key_of_def split: option.splits)

lemma distinct_keys_of_ids:
  assumes "distinct (map id_field xs)" and "list_all truthy_id xs"
  shows "distinct (map key_of xs)"
proof -
  have "inj_on key_of (set xs)"
  proof (rule inj_onI)
    fix a b
    assume ab: "a \<in> set xs" "b \<in> set xs" "key_of a = key_of b"
    with assms(2) have "id_field a = id_field b"
      by (auto simp: list_all_iff intro: truthy_key_inj)
    with assms(1) ab show "a = b"
      by (auto simp: distinct_map inj_on_def)
  qed
  with assms(1) show ?thesis
    by (simp add: distinct_map)
qed

lemma merge_and_dedupe_truthy: "list_all truthy_id (merge_and_dedupe old new)"
  using set_merge_and_dedupe[of old new] merged_truthy[of _ old new]
  by (auto simp: list_all_iff)

lemma merge_and_dedupe_newest:
  assumes "r \<in> set (merge_and_dedupe old new)" and "e \<in> set new"
    and "id_field e = id_field r"
  shows "get_fetched_at e \<le> get_fetched_at r"
proof -
  from assms(1) have r: "r \<in> set (merged old new)"
    using set_merge_and_dedupe by blast
  then have "truthy_id r" by (rule merged_truthy)
  then have k: "id_field r = Some (key_of r)" "key_of r \<noteq> []"
    using truthy_id_key by auto
  from fold_new_step_covers[OF assms(2), of "key_of r" "by_id_old old"] assms(3) k
  obtain r' where "map_of (by_id_of old new) (key_of r) = Some r'"
    and "get_fetched_at e \<le> get_fetched_at r'"
    by (auto simp: by_id_of_def)
  with merged_lookup[OF r k(1)] show ?thesis by simp
qed

lemma merge_and_dedupe_not_older:
  assumes "r \<in> set (merge_and_dedupe old new)"
    and "map_of (by_id_old old) (key_of r) = Some c"
  shows "get_fetched_at c \<le> get_fetched_at r"
proof -
  from assms(1) have r: "r \<in> set (merged old new)"
    using set_merge_and_dedupe by blast
  then have "truthy_id r" by (rule merged_truthy)
  then have k: "id_field r = Some (key_of r)"
    using truthy_id_key by auto
  from fold_new_step_grows[OF assms(2), of new]
  obtain r' where "map_of (by_id_of old new) (key_of r) = Some r'"
    and "get_fetched_at c \<le> get_fetched_at r'"
    by (auto simp: by_id_of_def)
  with merged_lookup[OF r k] show ?thesis by simp
qed

lemma merge_and_dedupe_stored_or_newer:
  assumes "r \<in> set (merge_and_dedupe old new)"
    and "map_of (by_id_old old) (key_of r) = Some c"
  shows "r = c \<or> (r \<in> set new \<and> get_fetched_at c < get_fetched_at r)"
proof -
  from assms(1) have r: "r \<in> set (merged old new)"
    using set_merge_and_dedupe by blast
  then have "truthy_id r" by (rule merged_truthy)
  then have k: "id_field r = Some (key_of r)"
    using truthy_id_key by auto
  from merged_lookup[OF r k] fold_new_step_stays_or_newer[OF assms(2), of new]
  show ?thesis
    by (auto simp: by_id_of_def)
qed

lemma fold_fixed: "(\<forall>e \<in> set es. f e d = d) \<Longrightarrow> fold f es d = d"
  by (induction es) auto

lemma lookup_items:
  assumes "distinct (map key_of xs)" and "r \<in> set xs"
  shows "map_of (items xs) (key_of r) = Some r"
proof -
  have "distinct (map fst (items xs))"
    using assms(1) by (simp add: map_fst_items)
  moreover have "(key_of r, r) \<in> set (items xs)"
    using assms(2) by (auto simp: items_def)
  ultimately show ?thesis by (rule map_of_is_SomeI)
qed

section \<open>Conflicts between the store and the batch\<close>

text \<open>
  C3, amended. When the dictionary built from the existing collection holds a record
  \<open>cur\<close> under an id, that record is replaced only by an incoming record of the same id
  whose fetched_at is strictly greater as a string. If no incoming record of that id is
  strictly greater (older or equal ones included), \<open>cur\<close> wins: it is in the merged set
  unchanged, every returned record of that id is \<open>cur\<close>, and \<open>cur\<close> is either returned
  or dropped at the retention cap; it is returned whenever the merged set has at most
  600 records. If some incoming record is strictly greater, the id ends with a record
  of the batch whose fetched_at is strictly greater than that of \<open>cur\<close>.
\<close>

theorem existing_record_wins:
  assumes "map_of (by_id_old old) i = Some cur"
  shows "if \<exists>e \<in> set new. id_field e = Some i \<and> get_fetched_at cur < get_fetched_at e
         then \<exists>r. map_of (by_id_of old new) i = Some r \<and> r \<in> set new \<and>
                  get_fetched_at cur < get_fetched_at r
         else map_of (by_id_of old new) i = Some cur \<and> cur \<in> set (merged old new) \<and>
              (\<forall>r \<in> set (merge_and_dedupe old new). id_field r = Some i \<longrightarrow> r = cur) \<and>
              (cur \<in> set (merge_and_dedupe old new) \<or> cur \<in> set (dropped old new)) \<and>
              (length (merged old new) \<le> 600 \<longrightarrow> cur \<in> set (merge_and_dedupe old new))"
proof (cases "\<exists>e \<in> set new. id_field e = Some i \<and> get_fetched_at cur < get_fetched_at e")
  case True
  then obtain e where e: "e \<in> set new" "id_field e = Some i"
    and newer: "get_fetched_at cur < get_fetched_at e"
    by blast
  have ok: "dict_ok (by_id_old old)"
    by (simp add: by_id_old_def dict_ok_fold_old dict_ok_Nil)
  from assms have "(i, cur) \<in> set (by_id_old old)"
    by (rule map_of_SomeD)
  with ok have i: "i \<noteq> []"
    by (auto simp: dict_ok_def list_all_iff)
  from fold_new_step_covers[OF e i, of "by_id_old old"]
  obtain r where r: "map_of (by_id_of old new) i = Some r"
    and le: "get_fetched_at e \<le> get_fetched_at r"
    by (auto simp: by_id_of_def)
  from newer le have gt: "get_fetched_at cur < get_fetched_at r" by simp
  from r have mem: "(i, r) \<in> set (by_id_of old new)"
    by (rule map_of_SomeD)
  then have "r \<in> snd ` set (by_id_of old new)" by force
  with fold_new_values[of new "by_id_old old"]
  have "r \<in> set new \<or> r \<in> snd ` set (by_id_old old)"
    by (auto simp: by_id_of_def)
  moreover have "r \<notin> snd ` set (by_id_old old)"
  proof
    assume old: "r \<in> snd ` set (by_id_old old)"
    from mem dict_ok_by_id_of[of old new] have "id_field r = Some i"
      by (auto simp: dict_ok_def list_all_iff)
    from dict_ok_lookup[OF ok old this] assms gt show False by simp
  qed
  ultimately have "r \<in> set new" by blast
  with r gt True show ?thesis by auto
next
  case False
  then have "\<forall>e \<in> set new. id_field e = Some i \<longrightarrow> get_fetched_at e \<le> get_fetched_at cur"
    by auto
  from fold_new_step_retains[OF assms this]
  have keep: "map_of (by_id_of old new) i = Some cur"
    by (simp add: by_id_of_def)
  then have "(i, cur) \<in> set (by_id_of old new)"
    by (rule map_of_SomeD)
  then have inm: "cur \<in> set (merged old new)"
    by (force simp: merged_def)
  have same: "r = cur" if "r \<in> set (merge_and_dedupe old new)" and "id_field r = Some i" for r
  proof -
    from that(1) have "r \<in> set (merged old new)"
      using set_merge_and_dedupe by blast
    from merged_lookup[OF this that(2)] keep show ?thesis by simp
  qed
  have "set (merge_and_dedupe old new) \<union> set (dropped old new) = set (merged old new)"
    using kept_append_dropped[of old new, THEN arg_cong, of set]
    by (simp add: set_sort_reverse)
  with inm have split: "cur \<in> set (merge_and_dedupe old new) \<or> cur \<in> set (dropped old new)"
    by blast
  have "cur \<in> set (merge_and_dedupe old new)" if "length (merged old new) \<le> 600"
  proof -
    from that have "dropped old new = []"
      by (simp add: dropped_def KEEP_MAX_def length_sort_reverse)
    with split show ?thesis by simp
  qed
  with keep inm split same False show ?thesis by auto
qed

lemmas run_simps =
  merge_and_dedupe_def merged_def by_id_of_def by_id_old_def old_step_def new_step_def
  str_gt_def sort_reverse_def KEEP_MAX_def dict_set_lookup

lemma small_merge: "merge_and_dedupe [stored] [earlier, other] = [other, stored]"
  by (simp add: run_simps stored_def earlier_def other_def entry_simps)

lemma small_merge': "merge_and_dedupe [stored] [later] = [later]"
  by (simp add: run_simps stored_def later_def entry_simps)

theorem existing_record_wins_witness:
  "map_of (by_id_old [stored]) ''2510.00001v1'' = Some stored \<and>
   get_fetched_at earlier < get_fetched_at stored \<and>
   map_of (by_id_of [stored] [earlier, other]) ''2510.00001v1'' = Some stored \<and>
   merge_and_dedupe [stored] [earlier, other] = [other, stored] \<and>
   stored \<in> set (merge_and_dedupe [stored] [earlier, other]) \<and>
   get_fetched_at stored < get_fetched_at later \<and>
   map_of (by_id_of [stored] [later]) ''2510.00001v1'' = Some later"
proof -
  have cur: "map_of (by_id_old [stored]) ''2510.00001v1'' = Some stored"
    by (simp add: run_simps stored_def entry_simps)
  have lt: "get_fetched_at earlier < get_fetched_at stored"
    "get_fetched_at stored < get_fetched_at later"
    by (simp_all add: stored_def earlier_def later_def entry_simps)
  have ids: "id_field earlier = Some ''2510.00001v1''" "id_field later = Some ''2510.00001v1''"
    "id_field other \<noteq> Some ''2510.00001v1''"
    by (simp_all add: earlier_def later_def other_def entry_simps)
  have small: "length (merged [stored] [earlier, other]) \<le> 600"
    using set_merged[of "[stored]" "[earlier, other]"]
      merged_distinct[of "[stored]" "[earlier, other]"]
    by (simp add: merged_def by_id_of_def by_id_old_def old_step_def new_step_def str_gt_def
        dict_set_lookup stored_def earlier_def other_def entry_simps)
  from existing_record_wins[OF cur, of "[earlier, other]"] lt ids small
  have 1: "map_of (by_id_of [stored] [earlier, other]) ''2510.00001v1'' = Some stored"
    and 3: "stored \<in> set (merge_and_dedupe [stored] [earlier, other])"
    by simp_all
  from existing_record_wins[OF cur, of "[later]"] lt ids
  have 2: "map_of (by_id_of [stored] [later]) ''2510.00001v1'' = Some later"
    by simp
  from cur lt 1 2 3 small_merge show ?thesis by simp
qed

text \<open>
  C3 as stated fails at the retention cap. The store holds \<open>stale\<close> under the id
  \<^verbatim>\<open>x\<close>; the only incoming record of that id, \<open>fresh_x\<close>, was fetched earlier and does
  not replace it. \<open>stale\<close> wins the conflict and is then the record with the smallest
  key among 601, so the slice of line 178 drops it: the existing record is not retained,
  and the returned collection holds no record of the id at all.
\<close>

theorem existing_record_dropped_counterexample:
  "map_of (by_id_old full_store) ''x'' = Some stale \<and>
   batch = [fresh_x, fresh_y] \<and>
   id_field fresh_x = Some ''x'' \<and> id_field fresh_y \<noteq> Some ''x'' \<and>
   get_fetched_at fresh_x < get_fetched_at stale \<and>
   stale \<notin> set (merge_and_dedupe full_store batch) \<and>
   fresh_x \<notin> set (merge_and_dedupe full_store batch)"
proof -
  have "e \<notin> set fillers" if "key_of e = ''x''" for e
    using x_not_filler that by force
  then have "stale \<notin> set fillers" "fresh_x \<notin> set fillers"
    by (simp_all add: key_of_named)
  moreover have "stale \<noteq> fresh_y" "fresh_x \<noteq> fresh_y"
    by (simp_all add: stale_def fresh_x_def fresh_y_def paper_def)
  ultimately have "stale \<notin> set (merge_and_dedupe full_store batch)"
    "fresh_x \<notin> set (merge_and_dedupe full_store batch)"
    by (simp_all add: merge_full_store)
  moreover have "get_fetched_at fresh_x < get_fetched_at stale"
    by (simp add: fresh_x_def stale_def entry_simps)
  moreover have "id_field fresh_x = Some ''x''" "id_field fresh_y \<noteq> Some ''x''"
    by (simp_all add: fresh_x_def fresh_y_def paper_def)
  ultimately show ?thesis
    by (simp add: by_id_old_full_store lookup_x_full_store merge_full_store batch_def)
qed

lemma find_snoc:
  "List.find P (xs @ [x]) =
     (case List.find P xs of None \<Rightarrow> (if P x then Some x else None) | Some y \<Rightarrow> Some y)"
  by (induction xs) auto

lemma old_step_lookup:
  "i \<noteq> [] \<Longrightarrow>
   map_of (old_step e d) i = (if id_field e = Some i then Some e else map_of d i)"
  by (auto simp: old_step_def dict_set_lookup split: option.splits)

lemma fold_old_step_lookup:
  "i \<noteq> [] \<Longrightarrow>
   map_of (fold old_step xs d) i =
     (case List.find (\<lambda>e. id_field e = Some i) (rev xs) of
        None \<Rightarrow> map_of d i
      | Some e \<Rightarrow> Some e)"
proof (induction xs arbitrary: d)
  case Nil
  show ?case by simp
next
  case (Cons x xs)
  from Cons.IH[OF Cons.prems, of "old_step x d"] show ?case
    by (simp add: find_snoc old_step_lookup[OF Cons.prems] split: option.splits)
qed

lemma by_id_old_last:
  "i \<noteq> [] \<Longrightarrow> map_of (by_id_old old) i = List.find (\<lambda>e. id_field e = Some i) (rev old)"
  by (simp add: by_id_old_def fold_old_step_lookup split: option.splits)

section \<open>Uniqueness of ids\<close>

text \<open>
  C6, amended. The collection the merge returns holds no two records with the same id,
  and every record in it has a non-empty id. On a conflict the record kept is not the
  one merged last but one with the greatest fetched_at: its fetched_at is at least that
  of every incoming record with its id, and it is either the stored record of its id,
  which is the last record of the existing collection with that id, or a record of the
  batch whose fetched_at is strictly greater than that of the stored record. The stored
  record is therefore kept on a tie.
\<close>

theorem unique_ids_newest_wins:
  "distinct (map id_field (merge_and_dedupe old new)) \<and>
   (\<forall>r \<in> set (merge_and_dedupe old new).
      truthy_id r \<and>
      (\<forall>e \<in> set new. id_field e = id_field r \<longrightarrow> get_fetched_at e \<le> get_fetched_at r) \<and>
      (\<forall>c. List.find (\<lambda>e. id_field e = id_field r) (rev old) = Some c \<longrightarrow>
           get_fetched_at c \<le> get_fetched_at r \<and>
           (r = c \<or> (r \<in> set new \<and> get_fetched_at c < get_fetched_at r))))"
proof -
  have "get_fetched_at c \<le> get_fetched_at r \<and>
        (r = c \<or> (r \<in> set new \<and> get_fetched_at c < get_fetched_at r))"
    if r: "r \<in> set (merge_and_dedupe old new)"
      and c: "List.find (\<lambda>e. id_field e = id_field r) (rev old) = Some c" for r c
  proof -
    from r have "truthy_id r"
      using merge_and_dedupe_truthy[of old new] by (simp add: list_all_iff)
    then have k: "id_field r = Some (key_of r)" "key_of r \<noteq> []"
      using truthy_id_key by auto
    from c k have "map_of (by_id_old old) (key_of r) = Some c"
      by (simp add: by_id_old_last)
    with r show ?thesis
      using merge_and_dedupe_not_older merge_and_dedupe_stored_or_newer by blast
  qed
  then show ?thesis
    using merge_and_dedupe_distinct[of old new] merge_and_dedupe_truthy[of old new]
      merge_and_dedupe_newest[of _ old new]
    by (auto simp: list_all_iff)
qed

lemma tied_facts:
  "id_field tied = id_field stored" "get_fetched_at tied = get_fetched_at stored"
  "tied \<noteq> stored"
  by (simp_all add: tied_def stored_def paper_def get_fetched_at_def)

theorem unique_ids_newest_wins_witness:
  "merge_and_dedupe [stored] [earlier, other] = [other, stored] \<and>
   distinct (map id_field [other, stored]) \<and>
   id_field earlier = id_field stored \<and>
   get_fetched_at earlier \<le> get_fetched_at stored \<and>
   id_field tied = id_field stored \<and>
   get_fetched_at tied = get_fetched_at stored \<and>
   tied \<noteq> stored \<and>
   tied \<notin> set (merge_and_dedupe [stored] [tied])"
proof -
  have ids: "id_field earlier = id_field stored"
    by (simp add: earlier_def stored_def entry_simps)
  from unique_ids_newest_wins[of "[stored]" "[earlier, other]"] ids
  have 1: "distinct (map id_field [other, stored]) \<and>
        get_fetched_at earlier \<le> get_fetched_at stored"
    unfolding small_merge by simp
  have 2: "tied \<notin> set (merge_and_dedupe [stored] [tied])"
  proof
    assume "tied \<in> set (merge_and_dedupe [stored] [tied])"
    with unique_ids_newest_wins[of "[stored]" "[tied]"]
    have "\<forall>c. List.find (\<lambda>e. id_field e = id_field tied) (rev [stored]) = Some c \<longrightarrow>
            tied = c \<or> (tied \<in> set [tied] \<and> get_fetched_at c < get_fetched_at tied)"
      by blast
    then have "tied = stored \<or> get_fetched_at stored < get_fetched_at tied"
      by (simp add: tied_facts)
    with tied_facts show False by simp
  qed
  from ids 1 2 tied_facts small_merge show ?thesis by simp
qed

text \<open>
  C6 as stated fails: the stored record and the incoming one share an id, the incoming
  one is merged last, and the stored one is returned.
\<close>

theorem last_merged_wins_counterexample:
  "id_field earlier = id_field stored \<and>
   merge_and_dedupe [stored] [earlier] = [stored] \<and>
   earlier \<notin> set (merge_and_dedupe [stored] [earlier])"
  by (simp add: run_simps stored_def earlier_def entry_simps)

section \<open>Merging the same batch again\<close>

lemma remerge_dictionary:
  assumes "\<forall>e \<in> set new. truthy_id e \<longrightarrow>
             id_field e \<in> id_field ` set (merge_and_dedupe old new)"
  shows "by_id_of (merge_and_dedupe old new) new = items (merge_and_dedupe old new)"
proof -
  let ?M = "merge_and_dedupe old new"
  have truthy: "list_all truthy_id ?M"
    by (rule merge_and_dedupe_truthy)
  have keys: "distinct (map key_of ?M)"
    using merge_and_dedupe_distinct truthy by (rule distinct_keys_of_ids)
  have start: "by_id_old ?M = items ?M"
    using truthy keys by (rule by_id_old_distinct)
  have "new_step e (items ?M) = items ?M" if e: "e \<in> set new" for e
  proof (cases "truthy_id e")
    case False
    then show ?thesis by (rule new_step_skip)
  next
    case True
    with assms e obtain r where r: "r \<in> set ?M" and same: "id_field e = id_field r"
      by auto
    from r truthy have "truthy_id r" by (simp add: list_all_iff)
    with True same have k: "key_of e = key_of r"
      by (simp add: key_of_def)
    have "map_of (items ?M) (key_of e) = Some r"
      unfolding k using keys r by (rule lookup_items)
    moreover have "get_fetched_at e \<le> get_fetched_at r"
      using r e same by (rule merge_and_dedupe_newest)
    ultimately show ?thesis by (rule new_step_keep)
  qed
  then have "fold new_step new (items ?M) = items ?M"
    by (intro fold_fixed) simp
  with start show ?thesis by (simp add: by_id_of_def)
qed

lemma nothing_dropped_ids:
  assumes "length (merged old new) \<le> KEEP_MAX"
  shows "\<forall>e \<in> set new. truthy_id e \<longrightarrow>
           id_field e \<in> id_field ` set (merge_and_dedupe old new)"
proof (intro ballI impI)
  fix e
  assume e: "e \<in> set new" and "truthy_id e"
  then have k: "id_field e = Some (key_of e)" "key_of e \<noteq> []"
    using truthy_id_key by auto
  from fold_new_step_covers[OF e k, of "by_id_old old"]
  obtain r where "map_of (by_id_of old new) (key_of e) = Some r"
    by (auto simp: by_id_of_def)
  then have mem: "(key_of e, r) \<in> set (by_id_of old new)"
    by (rule map_of_SomeD)
  with dict_ok_by_id_of[of old new] have "id_field r = Some (key_of e)"
    by (auto simp: dict_ok_def list_all_iff)
  moreover from mem have "r \<in> set (merged old new)"
    by (force simp: merged_def)
  with assms have "r \<in> set (merge_and_dedupe old new)"
    by (simp add: merge_and_dedupe_def length_sort_reverse set_sort_reverse)
  ultimately show "id_field e \<in> id_field ` set (merge_and_dedupe old new)"
    using k(1) by (metis imageI)
qed

text \<open>
  C2, amended. Merging the batch a second time into the result of the first merge
  returns that result again, field for field, provided every id of the batch is still
  present in the result of the first merge; this is so in particular whenever the first
  merge drops nothing.
\<close>

theorem merge_idempotent:
  "((\<forall>e \<in> set new. truthy_id e \<longrightarrow>
       id_field e \<in> id_field ` set (merge_and_dedupe old new)) \<longrightarrow>
      merge_and_dedupe (merge_and_dedupe old new) new = merge_and_dedupe old new) \<and>
   (length (merged old new) \<le> 600 \<longrightarrow>
      merge_and_dedupe (merge_and_dedupe old new) new = merge_and_dedupe old new)"
proof -
  let ?M = "merge_and_dedupe old new"
  have present: "merge_and_dedupe ?M new = ?M"
    if ids: "\<forall>e \<in> set new. truthy_id e \<longrightarrow> id_field e \<in> id_field ` set ?M"
  proof -
    have "merged ?M new = ?M"
      by (simp add: merged_def remerge_dictionary[OF ids] map_snd_items)
    moreover have "sort_reverse ?M = ?M"
      using sorted_merge_and_dedupe by (rule sort_reverse_sorted_id)
    moreover have "take KEEP_MAX ?M = ?M"
      using length_merge_and_dedupe[of old new] by simp
    ultimately show ?thesis
      by (simp add: merge_and_dedupe_def[of ?M new])
  qed
  moreover have "merge_and_dedupe ?M new = ?M" if "length (merged old new) \<le> 600"
    using that by (intro present nothing_dropped_ids) (simp add: KEEP_MAX_def)
  ultimately show ?thesis by blast
qed

theorem merge_idempotent_witness:
  "merge_and_dedupe [stored] [earlier, other] = [other, stored] \<and>
   merge_and_dedupe (merge_and_dedupe [stored] [earlier, other]) [earlier, other] =
     [other, stored]"
proof -
  have "\<forall>e \<in> set [earlier, other]. truthy_id e \<longrightarrow>
          id_field e \<in> id_field ` set (merge_and_dedupe [stored] [earlier, other])"
    unfolding small_merge by (simp add: stored_def earlier_def other_def entry_simps)
  with merge_idempotent[of "[earlier, other]" "[stored]"] small_merge show ?thesis by simp
qed

text \<open>
  C2 as stated fails at the retention cap. The first merge keeps \<open>stale\<close> for the id
  \<^verbatim>\<open>x\<close>, because the incoming \<open>fresh_x\<close> was fetched earlier, and then drops it as the
  record with the smallest key. The second merge no longer finds the id \<^verbatim>\<open>x\<close>, inserts
  \<open>fresh_x\<close>, which sorts first, and drops the last of the other records instead.
\<close>

theorem merge_idempotent_counterexample:
  "merge_and_dedupe full_store batch = fresh_y # fillers \<and>
   merge_and_dedupe (merge_and_dedupe full_store batch) batch =
     fresh_x # fresh_y # take 598 fillers \<and>
   merge_and_dedupe (merge_and_dedupe full_store batch) batch \<noteq>
     merge_and_dedupe full_store batch"
proof -
  have "fresh_x \<noteq> fresh_y"
    by (simp add: fresh_x_def fresh_y_def paper_def)
  then show ?thesis
    by (simp add: merge_full_store merge_again)
qed

section \<open>Deduplication within a run and the date filter\<close>

lemma uniq_step_lookup:
  "i \<noteq> [] \<Longrightarrow>
   map_of (uniq_step e d) i =
     (case map_of d i of
        None \<Rightarrow> (if id_field e = Some i then Some e else None)
      | Some v \<Rightarrow> Some v)"
  by (auto simp: uniq_step_def dict_set_lookup split: option.splits)

lemma fold_uniq_step_lookup:
  "i \<noteq> [] \<Longrightarrow>
   map_of (fold uniq_step xs d) i =
     (case map_of d i of
        None \<Rightarrow> List.find (\<lambda>e. id_field e = Some i) xs
      | Some v \<Rightarrow> Some v)"
proof (induction xs arbitrary: d)
  case Nil
  show ?case by (simp split: option.splits)
next
  case (Cons x xs)
  from Cons.IH[OF Cons.prems, of "uniq_step x d"] show ?case
    by (simp add: uniq_step_lookup[OF Cons.prems] split: option.splits)
qed

lemma dict_ok_uniq: "dict_ok (fold uniq_step xs [])"
  by (simp add: dict_ok_fold_uniq dict_ok_Nil)

lemma new_list_distinct: "distinct (map id_field (new_list xs))"
  using dict_ok_distinct_ids[OF dict_ok_uniq, of xs] by (simp add: new_list_def)

lemma new_list_truthy: "r \<in> set (new_list xs) \<Longrightarrow> truthy_id r"
  using dict_ok_truthy[OF dict_ok_uniq, of r xs] by (simp add: new_list_def)

lemma new_list_first:
  assumes "r \<in> set (new_list xs)"
  shows "List.find (\<lambda>e. id_field e = id_field r) xs = Some r"
proof -
  from assms have "truthy_id r" by (rule new_list_truthy)
  then have k: "id_field r = Some (key_of r)" "key_of r \<noteq> []"
    using truthy_id_key by auto
  from assms have "r \<in> snd ` set (fold uniq_step xs [])"
    by (simp add: new_list_def)
  from dict_ok_lookup[OF dict_ok_uniq this k(1)]
  show ?thesis
    by (simp add: fold_uniq_step_lookup[OF k(2)] k(1))
qed

lemma new_list_covers:
  assumes "e \<in> set xs" and "truthy_id e"
  shows "id_field e \<in> id_field ` set (new_list xs)"
proof -
  from assms(2) have k: "id_field e = Some (key_of e)" "key_of e \<noteq> []"
    using truthy_id_key by auto
  from assms(1) k(1) have "List.find (\<lambda>x. id_field x = Some (key_of e)) xs \<noteq> None"
    by (auto simp: find_None_iff)
  then obtain r where "map_of (fold uniq_step xs []) (key_of e) = Some r"
    by (auto simp: fold_uniq_step_lookup[OF k(2)])
  then have mem: "(key_of e, r) \<in> set (fold uniq_step xs [])"
    by (rule map_of_SomeD)
  with dict_ok_uniq[of xs] have "id_field r = Some (key_of e)"
    by (auto simp: dict_ok_def list_all_iff)
  moreover from mem have "r \<in> set (new_list xs)"
    by (force simp: new_list_def)
  ultimately show ?thesis
    using k(1) by (metis imageI)
qed

lemma new_list_filtered_filter:
  "new_list_filtered parse y es = filter (passes parse y) es"
  by (induction es) (auto simp: passes_def Let_def split: option.splits)

lemma merge_into_empty_distinct:
  assumes "list_all truthy_id b" and "distinct (map id_field b)"
  shows "merge_and_dedupe [] b = take KEEP_MAX (sort_reverse b)"
proof -
  have "distinct (map key_of b)"
    using assms(2,1) by (rule distinct_keys_of_ids)
  with assms(1) have "fold new_step b [] = [] @ items b"
    by (intro fold_new_step_fresh) simp_all
  then have "merged [] b = b"
    by (simp add: merged_def by_id_of_def by_id_old_def map_snd_items)
  then show ?thesis
    by (simp add: merge_and_dedupe_def)
qed

lemma filtered_batch_ok:
  "list_all truthy_id (new_list_filtered parse y (new_list xs)) \<and>
   distinct (map id_field (new_list_filtered parse y (new_list xs)))"
  using new_list_truthy[of _ xs] new_list_distinct[of xs]
  by (auto simp: new_list_filtered_filter list_all_iff distinct_map_filter)

lemmas parse_simps = iso_day_def replace_Z_def digit_def

lemma parse_examples:
  "iso_day ''2025-10-26'' = Some (2025, 10, 26)"
  "iso_day ''2025-10-27'' = Some (2025, 10, 27)"
  "iso_day ''26 Oct 2025'' = None"
  "iso_day (replace_Z ''2025-10-26T08:00:00Z'') = Some (2025, 10, 26)"
  "iso_day (replace_Z ''2025-10-27T01:00:00Z'') = Some (2025, 10, 27)"
  "iso_day (replace_Z ''2025-10-27T02:00:00Z'') = Some (2025, 10, 27)"
  by (simp_all add: parse_simps)

lemma passes_examples:
  "\<not> passes iso_day (2025, 10, 26) other"
  "passes iso_day (2025, 10, 26) misdated"
  "passes iso_day (2025, 10, 26) stored"
  "\<not> passes iso_day (2025, 10, 26) undated"
  by (simp_all add: passes_def other_def misdated_def stored_def undated_def
      get_date_def get_fetched_at_def paper_def parse_examples)

lemma new_list_example:
  "new_list [other, misdated, stored, earlier, undated] = [other, misdated, stored, undated]"
  by (simp add: new_list_def uniq_step_def dict_set_lookup other_def misdated_def stored_def
      earlier_def undated_def paper_def)

lemma sort_example: "sort_reverse [misdated, stored] = [misdated, stored]"
  by (simp add: sort_reverse_def misdated_def stored_def entry_simps)

section \<open>Merging into an empty store\<close>

text \<open>
  C7. The batch that \<^verbatim>\<open>main\<close> merges is the run's entries deduplicated by id, the first
  occurrence winning, and then filtered by date. Merged into an empty store it comes
  back sorted in descending order by (date, fetched_at) and cut at the cap: below the cap
  the result holds exactly the records of that batch, none added, removed or changed.
  The deduplicated list has one record for every non-empty id of the run, and that
  record is the first entry of the run with the id.
\<close>

theorem merge_into_empty_store:
  "merge_and_dedupe [] (new_list_filtered parse y (new_list all_new)) =
     take 600 (sort_reverse (new_list_filtered parse y (new_list all_new))) \<and>
   sorted_wrt precedes (merge_and_dedupe [] (new_list_filtered parse y (new_list all_new))) \<and>
   (length (new_list_filtered parse y (new_list all_new)) \<le> 600 \<longrightarrow>
      mset (merge_and_dedupe [] (new_list_filtered parse y (new_list all_new))) =
      mset (new_list_filtered parse y (new_list all_new))) \<and>
   distinct (map id_field (new_list all_new)) \<and>
   (\<forall>r \<in> set (new_list all_new).
      truthy_id r \<and> List.find (\<lambda>e. id_field e = id_field r) all_new = Some r) \<and>
   (\<forall>e \<in> set all_new. truthy_id e \<longrightarrow> id_field e \<in> id_field ` set (new_list all_new))"
proof -
  let ?b = "new_list_filtered parse y (new_list all_new)"
  have eq: "merge_and_dedupe [] ?b = take 600 (sort_reverse ?b)"
    using filtered_batch_ok[of parse y all_new]
    by (simp add: merge_into_empty_distinct KEEP_MAX_def)
  have "mset (merge_and_dedupe [] ?b) = mset ?b" if "length ?b \<le> 600"
    using that by (simp add: eq length_sort_reverse mset_sort_reverse)
  with eq show ?thesis
    using sorted_merge_and_dedupe[of "[]" ?b] new_list_distinct[of all_new]
      new_list_truthy[of _ all_new] new_list_first[of _ all_new] new_list_covers[of _ all_new]
    by blast
qed

theorem merge_into_empty_store_witness:
  "new_list [other, misdated, stored, earlier, undated] = [other, misdated, stored, undated] \<and>
   new_list_filtered iso_day (2025, 10, 26) [other, misdated, stored, undated] =
     [misdated, stored] \<and>
   merge_and_dedupe []
     (new_list_filtered iso_day (2025, 10, 26)
        (new_list [other, misdated, stored, earlier, undated])) = [misdated, stored]"
proof -
  have f: "new_list_filtered iso_day (2025, 10, 26) [other, misdated, stored, undated] =
      [misdated, stored]"
    by (simp add: new_list_filtered_filter passes_examples)
  from merge_into_empty_store[of iso_day "(2025, 10, 26)"
      "[other, misdated, stored, earlier, undated]"]
  have "merge_and_dedupe []
     (new_list_filtered iso_day (2025, 10, 26)
        (new_list [other, misdated, stored, earlier, undated])) = [misdated, stored]"
    unfolding new_list_example f by (simp add: sort_example)
  with new_list_example f show ?thesis by simp
qed

text \<open>
  Inside \<^verbatim>\<open>merge_and_dedupe\<close> itself a later duplicate of the batch replaces an earlier
  one when it was fetched later; the first occurrence wins because \<^verbatim>\<open>main\<close> removes
  duplicates before the merge.
\<close>

lemma merge_alone_prefers_newer: "merge_and_dedupe [] [earlier, stored] = [stored]"
  by (simp add: run_simps stored_def earlier_def entry_simps)

section \<open>The date filter\<close>

text \<open>
  C1, amended. A record whose date is the empty string (or missing) is excluded by the
  date filter without its fetched_at being read. The fetched_at is parsed only for a
  record whose date is not empty and does not parse: such a record is kept exactly when
  the day parsed from its fetched_at, with \<^verbatim>\<open>Z\<close> replaced by \<^verbatim>\<open>+00:00\<close>, is the target
  day. A record whose date parses is kept exactly when that day is the target day.
  This holds for every parser.
\<close>

theorem date_filter_fallback:
  "(get_date e = [] \<longrightarrow> e \<notin> set (new_list_filtered parse y es)) \<and>
   (get_date e \<noteq> [] \<and> parse (get_date e) = None \<longrightarrow>
      (e \<in> set (new_list_filtered parse y es) \<longleftrightarrow>
       e \<in> set es \<and> parse (replace_Z (get_fetched_at e)) = Some y)) \<and>
   (get_date e \<noteq> [] \<and> parse (get_date e) = Some d \<longrightarrow>
      (e \<in> set (new_list_filtered parse y es) \<longleftrightarrow> e \<in> set es \<and> d = y))"
  by (auto simp: new_list_filtered_filter passes_def)

theorem date_filter_fallback_witness:
  "get_date undated = [] \<and>
   undated \<notin> set (new_list_filtered iso_day (2025, 10, 26) [other, stored, undated, misdated]) \<and>
   get_date misdated \<noteq> [] \<and> iso_day (get_date misdated) = None \<and>
   iso_day (replace_Z (get_fetched_at misdated)) = Some (2025, 10, 26) \<and>
   misdated \<in> set (new_list_filtered iso_day (2025, 10, 26) [other, stored, undated, misdated]) \<and>
   iso_day (get_date other) = Some (2025, 10, 27) \<and>
   other \<notin> set (new_list_filtered iso_day (2025, 10, 26) [other, stored, undated, misdated])"
proof -
  have facts: "get_date undated = []" "get_date misdated \<noteq> []"
    "iso_day (get_date misdated) = None"
    "iso_day (replace_Z (get_fetched_at misdated)) = Some (2025, 10, 26)"
    "get_date other \<noteq> []" "iso_day (get_date other) = Some (2025, 10, 27)"
    by (simp_all add: undated_def misdated_def other_def paper_def get_date_def
        get_fetched_at_def parse_examples)
  let ?es = "[other, stored, undated, misdated]"
  from date_filter_fallback[of undated iso_day "(2025, 10, 26)" ?es] facts
  have 1: "undated \<notin> set (new_list_filtered iso_day (2025, 10, 26) ?es)"
    by simp
  from date_filter_fallback[of misdated iso_day "(2025, 10, 26)" ?es] facts
  have 2: "misdated \<in> set (new_list_filtered iso_day (2025, 10, 26) ?es)"
    by simp
  from date_filter_fallback[of other iso_day "(2025, 10, 26)" ?es "(2025, 10, 27)"] facts
  have 3: "other \<notin> set (new_list_filtered iso_day (2025, 10, 26) ?es)"
    by simp
  from facts 1 2 3 show ?thesis by simp
qed

text \<open>
  C1 as stated fails on the example of the specification: with dates
  \<^verbatim>\<open>2025-10-27\<close>, \<^verbatim>\<open>2025-10-26\<close> and the empty string, the last record fetched on
  2025-10-26, and the target day 2025-10-26, the filter returns the second record only.
  The guard of lines 206-207 skips the third record before anything is parsed.
\<close>

theorem date_filter_counterexample:
  "date undated = Some [] \<and>
   iso_day (replace_Z (get_fetched_at undated)) = Some (2025, 10, 26) \<and>
   new_list_filtered iso_day (2025, 10, 26) [other, stored, undated] = [stored]"
  by (simp add: Let_def other_def stored_def undated_def paper_def get_date_def
      get_fetched_at_def parse_examples)

section \<open>Tag extraction\<close>

lemma split_on_not_Nil: "split_on sep s \<noteq> []"
  by (induction s) (auto split: list.splits)

lemma split_on_without: "sep \<notin> set s \<Longrightarrow> split_on sep s = [s]"
  by (induction s) auto

lemma split_on_with: "sep \<in> set s \<Longrightarrow> \<exists>p q ps. split_on sep s = p # q # ps"
proof (induction s)
  case Nil
  then show ?case by simp
next
  case (Cons c cs)
  show ?case
  proof (cases "c = sep")
    case True
    with split_on_not_Nil[of sep cs] show ?thesis
      by (cases "split_on sep cs") auto
  next
    case False
    with Cons.prems have "sep \<in> set cs" by simp
    from Cons.IH[OF this] False show ?thesis by auto
  qed
qed

lemma takeWhile_snoc:
  "takeWhile P (xs @ [c]) =
     (if \<forall>x \<in> set xs. P x then xs @ (if P c then [c] else []) else takeWhile P xs)"
  by (induction xs) auto

lemma last_split_on: "last (split_on sep s) = rev (takeWhile (\<lambda>x. x \<noteq> sep) (rev s))"
proof (induction s)
  case Nil
  show ?case by simp
next
  case (Cons c cs)
  show ?case
  proof (cases "sep \<in> set cs")
    case False
    then show ?thesis
      by (cases "c = sep") (auto simp: split_on_without takeWhile_snoc)
  next
    case True
    from split_on_with[OF True] obtain p q ps where s: "split_on sep cs = p # q # ps"
      by blast
    with Cons.IH have "last (q # ps) = rev (takeWhile (\<lambda>x. x \<noteq> sep) (rev cs))"
      by simp
    with s True show ?thesis
      by (auto simp: takeWhile_snoc)
  qed
qed

lemma tags_step_emit: "tags_step c ts = ts @ (if c = [] then [] else emit c)"
  by (simp add: tags_step_def emit_def after_last_dot_def last_split_on)

lemma fold_tags_step:
  "fold tags_step cats ts = ts @ concat (map (\<lambda>c. if c = [] then [] else emit c) cats)"
  by (induction cats arbitrary: ts) (simp_all add: tags_step_emit)

lemma leading_Nil: "leading ws [] = 0"
  by (induction ws) auto

lemma strip_Nil: "strip [] = []"
  by (simp add: strip_def lstrip_def rstrip_def leading_Nil drop_leading.simps[of _ "[]"])

lemma nonempty_stripped:
  "filter (\<lambda>t. t \<noteq> []) (map strip (concat (map (\<lambda>c. if c = [] then [] else emit c) cats))) =
   filter (\<lambda>t. t \<noteq> []) (map strip (concat (map emit cats)))"
  by (induction cats) (simp_all add: emit_def strip_Nil)

lemma set_first_seen: "set (first_seen xs) = set xs"
  by (induction xs rule: first_seen.induct) auto

lemma distinct_first_seen: "distinct (first_seen xs)"
  by (induction xs rule: first_seen.induct) (auto simp: set_first_seen)

lemma first_seen_distinct: "distinct xs \<Longrightarrow> first_seen xs = xs"
  by (induction xs) (simp_all add: removeAll_id)

lemma fold_clean_step:
  "fold clean_step ts (set acc, acc) =
     (set (acc @ first_seen (filter (\<lambda>t. t \<noteq> [] \<and> t \<notin> set acc) (map strip ts))),
      acc @ first_seen (filter (\<lambda>t. t \<noteq> [] \<and> t \<notin> set acc) (map strip ts)))"
proof (induction ts arbitrary: acc)
  case Nil
  show ?case by simp
next
  case (Cons t ts)
  show ?case
  proof (cases "strip t \<noteq> [] \<and> strip t \<notin> set acc")
    case False
    then have "clean_step t (set acc, acc) = (set acc, acc)"
      by (auto simp: clean_step_def Let_def)
    with False Cons.IH[of acc] show ?thesis by auto
  next
    case True
    then have step: "clean_step t (set acc, acc) = (set (acc @ [strip t]), acc @ [strip t])"
      by (simp add: clean_step_def Let_def)
    have "removeAll (strip t) (filter (\<lambda>t. t \<noteq> [] \<and> t \<notin> set acc) (map strip ts)) =
          filter (\<lambda>u. u \<noteq> [] \<and> u \<notin> set (acc @ [strip t])) (map strip ts)"
      by (auto simp: removeAll_filter_not_eq intro: filter_cong)
    with True step Cons.IH[of "acc @ [strip t]"] show ?thesis by simp
  qed
qed

lemma tags_clean_spec:
  "tags_clean cats = first_seen (filter (\<lambda>t. t \<noteq> []) (map strip (concat (map emit cats))))"
  using fold_clean_step[of "fold tags_step cats []" "[]"]
  by (simp add: tags_clean_def fold_tags_step nonempty_stripped)

text \<open>
  C8, amended. For every list of category codes the tag extraction emits, for each code
  in order, the code itself and, when the code contains a dot, the text after its last
  dot; every emitted string is then stripped of surrounding white space, empty results
  are discarded, and duplicates are removed keeping the first occurrence. The result has
  no duplicates. When every emitted string is non-empty and has no surrounding white
  space, the result is the deduplicated list of the emitted strings as they are; the
  codes \<^verbatim>\<open>cs.CL\<close>, \<^verbatim>\<open>cs.AI\<close> yield \<^verbatim>\<open>cs.CL\<close>, \<^verbatim>\<open>CL\<close>, \<^verbatim>\<open>cs.AI\<close>, \<^verbatim>\<open>AI\<close>.
\<close>

theorem tag_extraction:
  "tags_clean cats = first_seen (filter (\<lambda>t. t \<noteq> []) (map strip (concat (map emit cats)))) \<and>
   distinct (tags_clean cats) \<and>
   ((\<forall>t \<in> set (concat (map emit cats)). t \<noteq> [] \<and> strip t = t) \<longrightarrow>
      tags_clean cats = spec_tags cats) \<and>
   tags_clean [''cs.CL'', ''cs.AI''] = [''cs.CL'', ''CL'', ''cs.AI'', ''AI'']"
proof -
  have "tags_clean cats = spec_tags cats"
    if "\<forall>t \<in> set (concat (map emit cats)). t \<noteq> [] \<and> strip t = t"
  proof -
    from that have "map strip (concat (map emit cats)) = concat (map emit cats)"
      by (intro map_idI) blast
    moreover from that
    have "filter (\<lambda>t. t \<noteq> []) (concat (map emit cats)) = concat (map emit cats)"
      by (intro filter_True) blast
    ultimately show ?thesis
      by (simp add: tags_clean_spec spec_tags_def)
  qed
  moreover have "tags_clean [''cs.CL'', ''cs.AI''] = [''cs.CL'', ''CL'', ''cs.AI'', ''AI'']"
    by code_simp
  ultimately show ?thesis
    using tags_clean_spec[of cats] distinct_first_seen by auto
qed

theorem tag_extraction_witness:
  "concat (map emit [''cs.CL'', ''cs.AI'', ''cs.CL'']) =
     [''cs.CL'', ''CL'', ''cs.AI'', ''AI'', ''cs.CL'', ''CL''] \<and>
   tags_clean [''cs.CL'', ''cs.AI'', ''cs.CL''] = spec_tags [''cs.CL'', ''cs.AI'', ''cs.CL''] \<and>
   spec_tags [''cs.CL'', ''cs.AI'', ''cs.CL''] = [''cs.CL'', ''CL'', ''cs.AI'', ''AI'']"
proof -
  have e: "concat (map emit [''cs.CL'', ''cs.AI'', ''cs.CL'']) =
      [''cs.CL'', ''CL'', ''cs.AI'', ''AI'', ''cs.CL'', ''CL'']"
    by (simp add: emit_def after_last_dot_def)
  have "\<forall>t \<in> set (concat (map emit [''cs.CL'', ''cs.AI'', ''cs.CL''])). t \<noteq> [] \<and> strip t = t"
    unfolding e by code_simp
  with tag_extraction[of "[''cs.CL'', ''cs.AI'', ''cs.CL'']"]
  have "tags_clean [''cs.CL'', ''cs.AI'', ''cs.CL''] = spec_tags [''cs.CL'', ''cs.AI'', ''cs.CL'']"
    by blast
  moreover have "spec_tags [''cs.CL'', ''cs.AI'', ''cs.CL''] = [''cs.CL'', ''CL'', ''cs.AI'', ''AI'']"
    unfolding spec_tags_def e by simp
  ultimately show ?thesis using e by simp
qed

text \<open>
  C8 as stated fails for a code that ends in a dot: the text after the last dot is
  empty, the rule of the specification emits it, and line 116 discards it. A code with
  surrounding white space fails likewise, since the tags are stripped.
\<close>

theorem tag_extraction_counterexample:
  "spec_tags [''cs.''] = [''cs.'', ''''] \<and> tags_clean [''cs.''] = [''cs.''] \<and>
   spec_tags ['' cs.CL''] = ['' cs.CL'', ''CL''] \<and> tags_clean ['' cs.CL''] = [''cs.CL'', ''CL'']"
  by code_simp

text \<open>
  The white space stripped is that of Unicode: a code that starts with a no-break space
  (U+00A0, the bytes C2 A0) and ends with an ideographic space (U+3000) and a line feed
  loses them.
\<close>

lemma tags_clean_unicode_space:
  "tags_clean [[CHR 0xC2, CHR 0xA0] @ ''cs.CL'' @ [CHR 0xE3, CHR 0x80, CHR 0x80, CHR 0x0A]] =
     [''cs.CL'', ''CL'']"
  by code_simp

section \<open>Loading the store\<close>

text \<open>
  C9. \<^verbatim>\<open>load_existing\<close> returns the empty collection when the store file is absent,
  when it cannot be opened or read, and when its text fails to deserialize; it returns
  what the decoder returns otherwise, and in no case does it raise.
\<close>

theorem load_existing_never_raises:
  "load_existing json_load Absent = Inr [] \<and>
   load_existing json_load (Unreadable x) = Inr [] \<and>
   (json_load s = Inl x \<longrightarrow> load_existing json_load (Text s) = Inr []) \<and>
   (json_load s = Inr v \<longrightarrow> load_existing json_load (Text s) = Inr v) \<and>
   (\<exists>v. load_existing json_load f = Inr v)"
  by (cases f) (auto simp: load_existing_def exists_def open_read_def split: sum.splits)

theorem load_existing_never_raises_witness:
  "empty_array_only ''{broken'' = Inl JSONDecodeError \<and>
   load_existing empty_array_only (Text ''{broken'') = Inr [] \<and>
   empty_array_only ''[]'' = Inr [] \<and>
   load_existing empty_array_only (Text ''[]'') = Inr [] \<and>
   load_existing empty_array_only (Unreadable OSError) = Inr [] \<and>
   load_existing empty_array_only Absent = Inr []"
proof -
  have d: "empty_array_only ''{broken'' = Inl JSONDecodeError" "empty_array_only ''[]'' = Inr []"
    by (simp_all add: empty_array_only_def)
  from load_existing_never_raises[of empty_array_only JSONDecodeError "''{broken''"] d
  have 1: "load_existing empty_array_only (Text ''{broken'') = Inr []"
    by (simp add: empty_array_only_def)
  from load_existing_never_raises[of empty_array_only OSError "''[]''" "[]"] d
  have 2: "load_existing empty_array_only (Text ''[]'') = Inr []"
    "load_existing empty_array_only (Unreadable OSError) = Inr []"
    "load_existing empty_array_only Absent = Inr []"
    by simp_all
  from d 1 2 show ?thesis by simp
qed

end
